theory Spec2Isabelle
  imports Main "HOL-Library.Word"
begin

section \<open>Data model of the graph synchronizer (src/cof/remote.py)\<close>

type_synonym hash = string
type_synonym bytes = "8 word list"

text \<open>
  The objects travel as JSON. The traversal never looks at an object's kind: it asks the
  decoded dictionary for the keys \<open>parent\<close>, \<open>tree_root\<close>, \<open>entries\<close> and
  \<open>block_hashes\<close>. A field is \<open>None\<close> when the key is absent (for \<open>parent\<close> also when
  the value is JSON null). The dictionary under \<open>entries\<close> keeps its insertion order,
  so it is an association list. The values are taken to have the types the objects of
  the store have: an object whose \<open>tree_root\<close> key is present with the value null, which
  the code would go on to request, is not among the objects of this model.
\<close>

datatype entry_kind = File | Dir

record tree_entry =
  entry_kind :: entry_kind
  entry_hash :: hash

record obj_dict =
  parent :: "hash option"
  tree_root :: "hash option"
  entries :: "(string \<times> tree_entry) list option"
  block_hashes :: "hash list option"

text \<open>
  \<open>click.ClickException\<close> with its message, and the \<open>ValueError\<close> that
  \<open>json.loads\<close> or \<open>bytes.decode\<close> raises, with its text.
\<close>

datatype error =
    ClickException string
  | ValueError string

fun str_error :: "error \<Rightarrow> string" where
  "str_error (ClickException msg) = msg"
| "str_error (ValueError msg) = msg"

text \<open>\<open>RemoteRepository\<close>, with the fields \<open>_load_remotes\<close> fills in.\<close>

record RemoteRepository =
  r_name :: string
  r_url :: string
  r_host :: string
  r_port :: int
  r_protocol :: string

datatype call = ObjectRequest hash | BlockRequest hash

text \<open>
  The mutable things clone and pull touch: the set \<open>fetched\<close>, the object tier and the
  block tier of the local store, the branch refs and \<open>HEAD\<close>, the number of times the
  working tree was restored, what \<open>click.echo\<close> printed, and the object and block
  requests sent through the client, in order.
\<close>

record state =
  fetched :: "hash set"
  objects :: "hash \<rightharpoonup> obj_dict"
  blocks :: "hash \<rightharpoonup> bytes"
  refs :: "string \<rightharpoonup> hash"
  HEAD :: "string option"
  restored :: nat
  echoed :: "string list"
  calls :: "call list"

text \<open>
  What the code of remote.py calls and does not define itself: the network client
  (\<open>handshake\<close>, \<open>request_refs\<close>, \<open>request_object\<close>, \<open>request_block\<close>; a dictionary
  of refs is the list of its items), the decoder \<open>json.loads(data.decode())\<close> (\<open>Inl\<close> the
  text of the exception when it raises), the hash that
  \<open>repository.storage.store_block\<close> returns for a block's bytes, the library matcher
  \<open>fnmatch.fnmatch\<close>, \<open>RemoteRepository.from_url\<close>, the remotes registry,
  \<open>repository._get_head_commit\<close>, and what \<open>clone_repository\<close> asks of the target
  directory (whether it holds anything, whether the configuration loads).
\<close>

record env =
  handshake :: "RemoteRepository \<Rightarrow> bool"
  request_refs :: "RemoteRepository \<Rightarrow> (string \<times> hash) list"
  request_object :: "RemoteRepository \<Rightarrow> hash \<Rightarrow> bytes option"
  request_block :: "RemoteRepository \<Rightarrow> hash \<Rightarrow> bytes option"
  loads :: "bytes \<Rightarrow> string + obj_dict"
  store_block :: "bytes \<Rightarrow> hash"
  fnmatch :: "string \<Rightarrow> string \<Rightarrow> bool"
  from_url :: "string \<Rightarrow> string \<Rightarrow> error + RemoteRepository"
  get_remote :: "string \<Rightarrow> RemoteRepository option"
  get_head_commit :: "state \<Rightarrow> hash option"
  target_not_empty :: "string \<Rightarrow> bool"
  config_loaded :: "string \<Rightarrow> bool"

text \<open>
  How a call ends: it returns, it raises, or it is cut off by the bound this model puts
  on the number of nested calls of \<open>_fetch_objects_recursive\<close>.
\<close>

datatype outcome = Returned | Raised error | OutOfFuel

text \<open>Python truthiness of an optional byte string and of an optional string.\<close>

definition truthy :: "'a list option \<Rightarrow> bool" where
  "truthy d = (case d of None \<Rightarrow> False | Some xs \<Rightarrow> xs \<noteq> [])"

section \<open>The path filter\<close>

text \<open>\<open>'**' in filter_pattern\<close>.\<close>

fun contains_stars :: "string \<Rightarrow> bool" where
  "contains_stars (c # d # rest) =
     ((c = CHR ''*'' \<and> d = CHR ''*'') \<or> contains_stars (d # rest))"
| "contains_stars _ = False"

text \<open>\<open>filter_pattern.split('**')\<close>: the pieces between the occurrences of \<open>**\<close>, found
  left to right without overlap; \<open>acc\<close> holds the current piece, reversed.\<close>

fun split_stars_acc :: "string \<Rightarrow> string \<Rightarrow> string list" where
  "split_stars_acc acc (c # d # rest) =
     (if c = CHR ''*'' \<and> d = CHR ''*'' then rev acc # split_stars_acc [] rest
      else split_stars_acc (c # acc) (d # rest))"
| "split_stars_acc acc [c] = [rev (c # acc)]"
| "split_stars_acc acc [] = [rev acc]"

definition split_stars :: "string \<Rightarrow> string list" where
  "split_stars s = split_stars_acc [] s"

text \<open>\<open>s.lstrip('/')\<close>, \<open>s.rstrip('/')\<close> and \<open>path.startswith(p)\<close>.\<close>

definition lstrip_slash :: "string \<Rightarrow> string" where
  "lstrip_slash s = dropWhile (\<lambda>c. c = CHR ''/'') s"

definition rstrip_slash :: "string \<Rightarrow> string" where
  "rstrip_slash s = rev (dropWhile (\<lambda>c. c = CHR ''/'') (rev s))"

definition startswith :: "string \<Rightarrow> string \<Rightarrow> bool" where
  "startswith s p = (take (length p) s = p)"

definition matches_filter :: "(string \<Rightarrow> string \<Rightarrow> bool) \<Rightarrow> string \<Rightarrow> string \<Rightarrow> bool" where
  "matches_filter fnm path filter_pattern =
     (if contains_stars filter_pattern then
        (case split_stars filter_pattern of
           [prefix, suffix] \<Rightarrow>
             if prefix \<noteq> [] \<and> \<not> startswith path (rstrip_slash prefix) then False
             else if suffix \<noteq> [] then fnm path (CHR ''*'' # lstrip_slash suffix)
             else True
         | _ \<Rightarrow> fnm path filter_pattern)
      else fnm path filter_pattern)"

text \<open>\<open>os.path.join(a, b)\<close> on POSIX.\<close>

definition os_path_join :: "string \<Rightarrow> string \<Rightarrow> string" where
  "os_path_join a b =
     (if startswith b ''/'' then b
      else if a = [] \<or> last a = CHR ''/'' then a @ b
      else a @ ''/'' @ b)"

section \<open>The fetch traversal\<close>

definition log_call :: "call \<Rightarrow> state \<Rightarrow> state" where
  "log_call c st = st\<lparr>calls := calls st @ [c]\<rparr>"

definition add_fetched :: "hash \<Rightarrow> state \<Rightarrow> state" where
  "add_fetched h st = st\<lparr>fetched := insert h (fetched st)\<rparr>"

definition save_object :: "hash \<Rightarrow> obj_dict \<Rightarrow> state \<Rightarrow> state" where
  "save_object h obj st = st\<lparr>objects := (objects st)(h \<mapsto> obj)\<rparr>"

definition echo :: "string \<Rightarrow> state \<Rightarrow> state" where
  "echo msg st = st\<lparr>echoed := echoed st @ [msg]\<rparr>"

text \<open>One round of the innermost loop of \<open>_fetch_tree_recursive\<close> (lines 253 to 266).\<close>

definition fetch_block :: "env \<Rightarrow> RemoteRepository \<Rightarrow> hash \<Rightarrow> state \<Rightarrow> outcome \<times> state" where
  "fetch_block ev remote block_hash st =
     (if block_hash \<in> fetched st then (Returned, st)
      else
        let st1 = log_call (BlockRequest block_hash) st;
            block_data = request_block ev remote block_hash
        in if \<not> truthy block_data
           then (Raised (ClickException (''Failed to fetch block '' @ block_hash)), st1)
           else
             let st2 = add_fetched block_hash st1;
                 stored_hash = store_block ev (the block_data);
                 st3 = st2\<lparr>blocks := (blocks st2)(stored_hash \<mapsto> the block_data)\<rparr>
             in if stored_hash \<noteq> block_hash
                then (Returned,
                      echo (''Warning: Block hash mismatch: '' @ stored_hash @ '' != '' @ block_hash) st3)
                else (Returned, st3))"

fun fetch_blocks :: "env \<Rightarrow> RemoteRepository \<Rightarrow> hash list \<Rightarrow> state \<Rightarrow> outcome \<times> state" where
  "fetch_blocks ev remote [] st = (Returned, st)"
| "fetch_blocks ev remote (block_hash # rest) st =
     (case fetch_block ev remote block_hash st of
        (Returned, st') \<Rightarrow> fetch_blocks ev remote rest st'
      | r \<Rightarrow> r)"

text \<open>One round of the loop over \<open>tree_dict["entries"].items()\<close> (lines 230 to 266).\<close>

definition fetch_entry ::
  "env \<Rightarrow> RemoteRepository \<Rightarrow> string option \<Rightarrow> string \<Rightarrow> string \<times> tree_entry \<Rightarrow> state \<Rightarrow> outcome \<times> state" where
  "fetch_entry ev remote path_filter current_path e st =
     (let entry_name = fst e; entry_data = snd e;
          entry_path = (if current_path \<noteq> [] then os_path_join current_path entry_name
                        else entry_name)
      in if truthy path_filter \<and> \<not> matches_filter (fnmatch ev) entry_path (the path_filter)
         then (Returned, st)
         else
           let blob_hash = entry_hash entry_data
           in if blob_hash \<in> fetched st then (Returned, st)
              else
                let st1 = log_call (ObjectRequest blob_hash) st;
                    blob_data = request_object ev remote blob_hash
                in if \<not> truthy blob_data
                   then (Raised (ClickException (''Failed to fetch blob '' @ blob_hash)), st1)
                   else
                     let st2 = add_fetched blob_hash st1
                     in case loads ev (the blob_data) of
                          Inl msg \<Rightarrow> (Raised (ValueError msg), st2)
                        | Inr blob_dict \<Rightarrow>
                            let st3 = save_object blob_hash blob_dict st2
                            in (case block_hashes blob_dict of
                                  None \<Rightarrow> (Returned, st3)
                                | Some bhs \<Rightarrow> fetch_blocks ev remote bhs st3))"

fun fetch_entries ::
  "env \<Rightarrow> RemoteRepository \<Rightarrow> string option \<Rightarrow> string \<Rightarrow> (string \<times> tree_entry) list \<Rightarrow> state \<Rightarrow> outcome \<times> state" where
  "fetch_entries ev remote path_filter current_path [] st = (Returned, st)"
| "fetch_entries ev remote path_filter current_path (e # rest) st =
     (case fetch_entry ev remote path_filter current_path e st of
        (Returned, st') \<Rightarrow> fetch_entries ev remote path_filter current_path rest st'
      | r \<Rightarrow> r)"

text \<open>\<open>_fetch_tree_recursive\<close> (lines 210 to 266). It makes no call to itself.\<close>

definition fetch_tree_recursive ::
  "env \<Rightarrow> RemoteRepository \<Rightarrow> hash \<Rightarrow> string option \<Rightarrow> string \<Rightarrow> state \<Rightarrow> outcome \<times> state" where
  "fetch_tree_recursive ev remote tree_hash path_filter current_path st =
     (if tree_hash \<in> fetched st then (Returned, st)
      else
        let st1 = log_call (ObjectRequest tree_hash) st;
            obj_data = request_object ev remote tree_hash
        in if \<not> truthy obj_data
           then (Raised (ClickException (''Failed to fetch tree '' @ tree_hash)), st1)
           else
             let st2 = add_fetched tree_hash st1
             in case loads ev (the obj_data) of
                  Inl msg \<Rightarrow> (Raised (ValueError msg), st2)
                | Inr tree_dict \<Rightarrow>
                    let st3 = save_object tree_hash tree_dict st2
                    in (case entries tree_dict of
                          None \<Rightarrow> (Returned, st3)
                        | Some es \<Rightarrow> fetch_entries ev remote path_filter current_path es st3))"

text \<open>
  \<open>_fetch_objects_recursive\<close> (lines 176 to 208). The recursion follows the parent
  chain, which a remote may make as long as it likes when no depth is given; the first
  argument bounds the number of nested calls, and \<open>OutOfFuel\<close> says the bound was hit.
\<close>

fun fetch_objects_recursive ::
  "nat \<Rightarrow> env \<Rightarrow> RemoteRepository \<Rightarrow> hash \<Rightarrow> int option \<Rightarrow> int \<Rightarrow> string option \<Rightarrow> state \<Rightarrow> outcome \<times> state" where
  "fetch_objects_recursive 0 ev remote object_hash depth current_depth path_filter st = (OutOfFuel, st)"
| "fetch_objects_recursive (Suc fuel) ev remote object_hash depth current_depth path_filter st =
     (if object_hash \<in> fetched st then (Returned, st)
      else
        let st1 = log_call (ObjectRequest object_hash) (add_fetched object_hash st);
            obj_data = request_object ev remote object_hash
        in if \<not> truthy obj_data
           then (Raised (ClickException (''Failed to fetch object '' @ object_hash)), st1)
           else
             case loads ev (the obj_data) of
               Inl msg \<Rightarrow> (Raised (ValueError msg), st1)
             | Inr obj \<Rightarrow>
                 let st2 = save_object object_hash obj st1;
                     r = (if truthy (parent obj)
                          then (if depth = None \<or> current_depth < the depth - 1
                                then fetch_objects_recursive fuel ev remote (the (parent obj)) depth
                                       (current_depth + 1) path_filter st2
                                else (Returned, st2))
                          else (Returned, st2))
                 in (case r of
                       (Returned, st3) \<Rightarrow>
                         (case tree_root obj of
                            None \<Rightarrow> (Returned, st3)
                          | Some t \<Rightarrow> fetch_tree_recursive ev remote t path_filter [] st3)
                     | _ \<Rightarrow> r))"

section \<open>Clone and pull\<close>

text \<open>\<open>str(n)\<close> for an integer, as an f-string prints it.\<close>

definition digit_char :: "nat \<Rightarrow> char" where
  "digit_char d = char_of (48 + d)"

fun str_nat :: "nat \<Rightarrow> string" where
  "str_nat n = (if n < 10 then [digit_char n] else str_nat (n div 10) @ [digit_char (n mod 10)])"

declare str_nat.simps [simp del]

definition str_int :: "int \<Rightarrow> string" where
  "str_int i = (if i < 0 then CHR ''-'' # str_nat (nat (- i)) else str_nat (nat i))"

text \<open>
  The loop that writes one ref file per item of the remote's refs. The ref names are
  taken to be branch names that can all be files side by side under \<open>refs/heads\<close>;
  names that collide as paths (\<open>x\<close> and \<open>x/y\<close>), on which \<open>open\<close> would raise, are
  not among the refs of this model.
\<close>

definition write_refs :: "(string \<times> hash) list \<Rightarrow> state \<Rightarrow> state" where
  "write_refs items st = st\<lparr>refs := fold (\<lambda>(ref_name, commit_hash) m. m(ref_name \<mapsto> commit_hash)) items (refs st)\<rparr>"

definition restore_working_tree :: "state \<Rightarrow> state" where
  "restore_working_tree st = st\<lparr>restored := Suc (restored st)\<rparr>"

definition clone_info :: "string \<Rightarrow> string \<Rightarrow> int option \<Rightarrow> string option \<Rightarrow> string" where
  "clone_info url target_dir depth path_filter =
     ''Cloned repository from '' @ url @ '' to '' @ target_dir
     @ (case depth of
          None \<Rightarrow> []
        | Some d \<Rightarrow> if d \<noteq> 0 then '' (shallow clone, depth='' @ str_int d @ '')'' else [])
     @ (if truthy path_filter then '' (filtered: '' @ the path_filter @ '')'' else [])"

text \<open>
  The body of the \<open>try\<close> of \<open>clone_repository\<close> (lines 102 to 170). The state it is
  given is the repository that \<open>init\<close> has just created in the target directory.
\<close>

definition clone_body ::
  "nat \<Rightarrow> env \<Rightarrow> string \<Rightarrow> string \<Rightarrow> int option \<Rightarrow> string option \<Rightarrow> state \<Rightarrow> outcome \<times> state" where
  "clone_body fuel ev url target_dir depth path_filter st =
     (case from_url ev ''origin'' url of
        Inl e \<Rightarrow> (Raised e, st)
      | Inr remote \<Rightarrow>
          if target_not_empty ev target_dir
          then (Raised (ClickException (''Target directory '' @ [CHR 0x27] @ target_dir @ [CHR 0x27] @ '' is not empty.'')), st)
          else
            let temp_repo = st
            in if \<not> config_loaded ev target_dir
               then (Raised (ClickException ''Repository configuration not loaded.''), temp_repo)
               else if \<not> handshake ev remote
               then (Raised (ClickException ''Failed to connect to remote repository.''), temp_repo)
               else
                 let remote_refs = request_refs ev remote
                 in if remote_refs = []
                    then (Raised (ClickException ''No refs found on remote repository.''), temp_repo)
                    else
                      let main_commit = map_of remote_refs ''main''
                      in if \<not> truthy main_commit
                         then (Raised (ClickException ''Remote repository has no main branch.''), temp_repo)
                         else
                           (case fetch_objects_recursive fuel ev remote (the main_commit) depth 0
                                   path_filter (temp_repo\<lparr>fetched := {}\<rparr>) of
                              (Returned, st1) \<Rightarrow>
                                let st2 = write_refs remote_refs st1;
                                    st3 = st2\<lparr>HEAD := Some ''ref: refs/heads/main''\<rparr>;
                                    st4 = restore_working_tree st3
                                in (Returned, echo (clone_info url target_dir depth path_filter) st4)
                            | r \<Rightarrow> r))"

text \<open>
  \<open>clone_repository\<close>: \<open>Some True\<close> and \<open>Some False\<close> are the two values it returns,
  \<open>None\<close> is a traversal that hit the bound on nested calls.
\<close>

definition clone_repository ::
  "nat \<Rightarrow> env \<Rightarrow> string \<Rightarrow> string \<Rightarrow> int option \<Rightarrow> string option \<Rightarrow> state \<Rightarrow> bool option \<times> state" where
  "clone_repository fuel ev url target_dir depth path_filter st =
     (case clone_body fuel ev url target_dir depth path_filter st of
        (Returned, st') \<Rightarrow> (Some True, st')
      | (Raised e, st') \<Rightarrow> (Some False, echo (''Clone failed: '' @ str_error e) st')
      | (OutOfFuel, st') \<Rightarrow> (None, st'))"

text \<open>The body of the \<open>try\<close> of \<open>pull_from_remote\<close> (lines 384 to 420).\<close>

definition pull_body :: "nat \<Rightarrow> env \<Rightarrow> string \<Rightarrow> string \<Rightarrow> state \<Rightarrow> outcome \<times> state" where
  "pull_body fuel ev remote_name branch st =
     (case get_remote ev remote_name of
        None \<Rightarrow> (Raised (ClickException (''Remote '' @ [CHR 0x27] @ remote_name @ [CHR 0x27] @ '' not found.'')), st)
      | Some remote \<Rightarrow>
          if \<not> handshake ev remote
          then (Raised (ClickException ''Failed to connect to remote repository.''), st)
          else
            let remote_refs = request_refs ev remote;
                remote_commit = map_of remote_refs branch
            in if \<not> truthy remote_commit
               then (Raised (ClickException (''Remote branch '' @ [CHR 0x27] @ branch @ [CHR 0x27] @ '' not found.'')), st)
               else
                 let local_commit = get_head_commit ev st
                 in if local_commit = remote_commit
                    then (Returned, echo ''Already up to date.'' st)
                    else
                      (case fetch_objects_recursive fuel ev remote (the remote_commit) None 0 None
                              (st\<lparr>fetched := {}\<rparr>) of
                         (Returned, st1) \<Rightarrow>
                           let st2 = st1\<lparr>refs := (refs st1)(branch \<mapsto> the remote_commit)\<rparr>;
                               st3 = restore_working_tree st2
                           in (Returned, echo (''Pulled changes from '' @ remote_name @ ''/'' @ branch) st3)
                       | r \<Rightarrow> r))"

definition pull_from_remote :: "nat \<Rightarrow> env \<Rightarrow> string \<Rightarrow> string \<Rightarrow> state \<Rightarrow> bool option \<times> state" where
  "pull_from_remote fuel ev remote_name branch st =
     (case pull_body fuel ev remote_name branch st of
        (Returned, st') \<Rightarrow> (Some True, st')
      | (Raised e, st') \<Rightarrow> (Some False, echo (''Pull failed: '' @ str_error e) st')
      | (OutOfFuel, st') \<Rightarrow> (None, st'))"

section \<open>The packet codec (cof.network, which the sources at hand do not include)\<close>

unbundle bit_operations_syntax

text \<open>Modelled from the spec: the enumeration \<open>PacketType\<close> of cof.network, with the
  members the packet model of the spec lists.\<close>

datatype PacketType =
    HANDSHAKE | HANDSHAKE_ACK | OBJECT_REQUEST | OBJECT_RESPONSE | BLOCK_REQUEST | BLOCK_RESPONSE
  | REF_REQUEST | REF_RESPONSE | PUSH_REQUEST | PUSH_RESPONSE | DATA | ERROR

text \<open>Modelled from the spec: the byte of a packet type on the wire ("single byte enum").
  The spec does not give the values of cof.network; the members are numbered from 1 in
  the order the spec lists them, which leaves \<open>0xFF\<close>, the byte that
  test_invalid_packet_type writes, unknown.\<close>

fun packet_type_byte :: "PacketType \<Rightarrow> 8 word" where
  "packet_type_byte HANDSHAKE = 1"
| "packet_type_byte HANDSHAKE_ACK = 2"
| "packet_type_byte OBJECT_REQUEST = 3"
| "packet_type_byte OBJECT_RESPONSE = 4"
| "packet_type_byte BLOCK_REQUEST = 5"
| "packet_type_byte BLOCK_RESPONSE = 6"
| "packet_type_byte REF_REQUEST = 7"
| "packet_type_byte REF_RESPONSE = 8"
| "packet_type_byte PUSH_REQUEST = 9"
| "packet_type_byte PUSH_RESPONSE = 10"
| "packet_type_byte DATA = 11"
| "packet_type_byte ERROR = 12"

text \<open>Modelled from the spec: the members of \<open>PacketType\<close>, in the order of the spec.\<close>

definition packet_types :: "PacketType list" where
  "packet_types = [HANDSHAKE, HANDSHAKE_ACK, OBJECT_REQUEST, OBJECT_RESPONSE, BLOCK_REQUEST,
                   BLOCK_RESPONSE, REF_REQUEST, REF_RESPONSE, PUSH_REQUEST, PUSH_RESPONSE, DATA, ERROR]"

text \<open>Modelled from the spec: the packet type a byte stands for in cof.network, \<open>None\<close>
  for a byte that is not the value of a member.\<close>

definition packet_type_of_byte :: "8 word \<Rightarrow> PacketType option" where
  "packet_type_of_byte b = find (\<lambda>t. packet_type_byte t = b) packet_types"

text \<open>Modelled from the spec: the class \<open>NetworkPacket\<close> of cof.network, with the fields
  of the packet model of the spec. Text fields are held in their UTF-8 encoded form, one
  \<open>char\<close> per byte.\<close>

record NetworkPacket =
  packet_type :: PacketType
  session_id :: string
  repo_path :: string
  sequence :: int
  total_packets :: int
  payload :: bytes
  checksum :: string

text \<open>Modelled from the spec: the failures of the codec of cof.network that the spec
  names, "packet too small" and "checksum mismatch", and, for packing, a field that does
  not fit its width.\<close>

datatype codec_error = PacketTooSmall | ChecksumMismatch | FieldOutOfRange

text \<open>\<open>s.encode()\<close> and \<open>b.decode()\<close> between text in UTF-8 form and bytes.\<close>

definition encode_str :: "string \<Rightarrow> bytes" where
  "encode_str s = map (\<lambda>c. of_nat (of_char c)) s"

definition decode_str :: "bytes \<Rightarrow> string" where
  "decode_str bs = map (\<lambda>b. char_of (unat b)) bs"

text \<open>Modelled from the spec: a hex digit of the checksum of cof.network, lower case as
  \<open>hexdigest\<close> prints it.\<close>

definition hex_char :: "nat \<Rightarrow> char" where
  "hex_char n = ''0123456789abcdef'' ! (n mod 16)"

text \<open>Modelled from the spec: the \<open>i\<close>-th nibble of a 256-bit BLAKE3 digest, counted
  from the least significant end.\<close>

definition nibble :: "256 word \<Rightarrow> nat \<Rightarrow> nat" where
  "nibble w i = unat (drop_bit (4 * i) w AND 15)"

text \<open>Modelled from the spec: the checksum of cof.network, "BLAKE3 of all following
  bytes, first 16 hex chars". BLAKE3 itself is an argument: a function from bytes to a
  256-bit digest, whose hex form starts with the most significant nibble.\<close>

definition checksum_of :: "(bytes \<Rightarrow> 256 word) \<Rightarrow> bytes \<Rightarrow> string" where
  "checksum_of blake3 bs = map (\<lambda>i. hex_char (nibble (blake3 bs) (63 - i))) [0..<16]"

text \<open>Modelled from the spec: a 16-bit big-endian integer, the length prefix of a string
  in the header of cof.network ("length-prefixed UTF-8 strings"; the spec leaves the
  width to the implementer).\<close>

definition be16 :: "nat \<Rightarrow> bytes" where
  "be16 n = [of_nat (n div 256), of_nat n]"

text \<open>Modelled from the spec: a 32-bit big-endian integer, the form of \<open>sequence\<close> and
  \<open>total_packets\<close> in the header of cof.network ("fixed-width big-endian integers"; the
  spec leaves the width to the implementer).\<close>

definition be32 :: "nat \<Rightarrow> bytes" where
  "be32 n = [of_nat (n div 16777216), of_nat (n div 65536), of_nat (n div 256), of_nat n]"

text \<open>Modelled from the spec: reading a big-endian integer of cof.network's header back.\<close>

definition from_be :: "bytes \<Rightarrow> nat" where
  "from_be bs = foldl (\<lambda>acc b. acc * 256 + unat b) 0 bs"

text \<open>Modelled from the spec: the serialized header of cof.network between type and
  payload: session id, repository path, sequence, total.\<close>

definition header_bytes :: "string \<Rightarrow> string \<Rightarrow> int \<Rightarrow> int \<Rightarrow> bytes" where
  "header_bytes sid rp sq tot =
     be16 (length sid) @ encode_str sid @ be16 (length rp) @ encode_str rp
     @ be32 (nat sq) @ be32 (nat tot)"

text \<open>Modelled from the spec: the bytes of a packet of cof.network after its checksum:
  type byte, header, payload.\<close>

definition body_bytes :: "PacketType \<Rightarrow> string \<Rightarrow> string \<Rightarrow> int \<Rightarrow> int \<Rightarrow> bytes \<Rightarrow> bytes" where
  "body_bytes ty sid rp sq tot pl = packet_type_byte ty # header_bytes sid rp sq tot @ pl"

text \<open>Modelled from the spec: the constructor \<open>NetworkPacket(packet_type, session_id,
  repo_path, sequence, total_packets, payload)\<close> of cof.network, which fills in the
  checksum.\<close>

definition NetworkPacket_init ::
  "(bytes \<Rightarrow> 256 word) \<Rightarrow> PacketType \<Rightarrow> string \<Rightarrow> string \<Rightarrow> int \<Rightarrow> int \<Rightarrow> bytes \<Rightarrow> NetworkPacket" where
  "NetworkPacket_init blake3 ty sid rp sq tot pl =
     \<lparr>packet_type = ty, session_id = sid, repo_path = rp, sequence = sq, total_packets = tot,
      payload = pl, checksum = checksum_of blake3 (body_bytes ty sid rp sq tot pl)\<rparr>"

text \<open>Modelled from the spec: \<open>NetworkPacket.pack\<close> of cof.network. The checksum is
  computed over the serialized bytes excluding itself and placed as the leading
  16-character hex prefix. A field that does not fit its width cannot be serialized.\<close>

definition pack :: "(bytes \<Rightarrow> 256 word) \<Rightarrow> NetworkPacket \<Rightarrow> codec_error + bytes" where
  "pack blake3 p =
     (if 65536 \<le> length (session_id p) \<or> 65536 \<le> length (repo_path p)
         \<or> sequence p < 0 \<or> 4294967296 \<le> sequence p
         \<or> total_packets p < 0 \<or> 4294967296 \<le> total_packets p
      then Inl FieldOutOfRange
      else
        let body = body_bytes (packet_type p) (session_id p) (repo_path p) (sequence p)
                     (total_packets p) (payload p)
        in Inr (encode_str (checksum_of blake3 body) @ body))"

text \<open>Modelled from the spec: the minimum header length of cof.network, below which
  \<open>unpack\<close> rejects its input: checksum, type byte, two empty strings, two integers.\<close>

definition min_header_length :: nat where
  "min_header_length = 16 + 1 + 2 + 2 + 4 + 4"

text \<open>Modelled from the spec: reading one length-prefixed string of cof.network's header;
  \<open>None\<close> when the bytes end first.\<close>

definition read_str :: "bytes \<Rightarrow> (string \<times> bytes) option" where
  "read_str bs =
     (if length bs < 2 then None
      else
        let n = from_be (take 2 bs); r = drop 2 bs
        in if length r < n then None else Some (decode_str (take n r), drop n r))"

text \<open>Modelled from the spec: reading the header of cof.network and the payload after
  it; \<open>None\<close> when the bytes end before the header does.\<close>

definition parse_header :: "bytes \<Rightarrow> (string \<times> string \<times> int \<times> int \<times> bytes) option" where
  "parse_header bs =
     (case read_str bs of
        None \<Rightarrow> None
      | Some (sid, r1) \<Rightarrow>
          (case read_str r1 of
             None \<Rightarrow> None
           | Some (rp, r2) \<Rightarrow>
               if length r2 < 8 then None
               else Some (sid, rp, int (from_be (take 4 r2)), int (from_be (take 4 (drop 4 r2))),
                          drop 8 r2)))"

text \<open>Modelled from the spec: \<open>NetworkPacket.unpack\<close> of cof.network. An input shorter
  than the minimum header length is rejected as too small, and so is an input that ends
  before the header it declares does; an input whose recomputed checksum differs from
  the declared one is rejected as a checksum mismatch, and an unknown \<open>packet_type\<close>
  byte decodes as \<open>ERROR\<close>.\<close>

definition unpack :: "(bytes \<Rightarrow> 256 word) \<Rightarrow> bytes \<Rightarrow> codec_error + NetworkPacket" where
  "unpack blake3 bs =
     (if length bs < min_header_length then Inl PacketTooSmall
      else
        let declared = take 16 bs; rest = drop 16 bs
        in if encode_str (checksum_of blake3 rest) \<noteq> declared then Inl ChecksumMismatch
           else
             let ty = (case packet_type_of_byte (hd rest) of Some t \<Rightarrow> t | None \<Rightarrow> ERROR)
             in case parse_header (tl rest) of
                  None \<Rightarrow> Inl PacketTooSmall
                | Some (sid, rp, sq, tot, pl) \<Rightarrow>
                    Inr \<lparr>packet_type = ty, session_id = sid, repo_path = rp, sequence = sq,
                         total_packets = tot, payload = pl, checksum = decode_str declared\<rparr>)"

text \<open>A stand-in digest for the worked examples: any function to 256 bits will do.\<close>

definition demo_digest :: "bytes \<Rightarrow> 256 word" where
  "demo_digest bs = push_bit 192 (foldl (\<lambda>acc b. 31 * acc + ucast b + 1) 7 bs)"

section \<open>The session server (src/cof/server.py)\<close>

text \<open>
  What \<open>_process_packet\<close> asks of the repository it opens: whether it is one, the
  serialized form \<open>json.dumps(obj).encode()\<close> of the object \<open>_load_object\<close> finds for
  a hash (\<open>None\<close> when it finds nothing), whether \<open>refs/heads\<close> exists, and the name of
  every file there with its stripped content. The block tier is part of the repository
  too; \<open>_process_packet\<close> never reads it.
\<close>

record server_repository =
  is_repo :: bool
  load_object :: "hash \<Rightarrow> bytes option"
  refs_dir_exists :: bool
  ref_files :: "(string \<times> string) list"
  block_store :: "hash \<rightharpoonup> bytes"

text \<open>
  What the server runs against: \<open>CofRepository(str(root_dir / repo_path))\<close> (\<open>Inl\<close> the
  text of the exception when it raises), the digest behind the checksum of the packets
  it builds, \<open>json.dumps(refs).encode()\<close> for the items of the refs dictionary, and the
  text an f-string prints for a packet type.
\<close>

record server_env =
  open_repository :: "string \<Rightarrow> string + server_repository"
  server_digest :: "bytes \<Rightarrow> 256 word"
  dumps_refs :: "(string \<times> string) list \<Rightarrow> bytes"
  str_packet_type :: "PacketType \<Rightarrow> string"

text \<open>The response packets all have sequence 0 of 1 and echo session and repository.\<close>

definition response :: "server_env \<Rightarrow> NetworkPacket \<Rightarrow> PacketType \<Rightarrow> bytes \<Rightarrow> NetworkPacket" where
  "response sv packet ty pl =
     NetworkPacket_init (server_digest sv) ty (session_id packet) (repo_path packet) 0 1 pl"

text \<open>
  \<open>_process_packet\<close> (lines 85 to 183). In the \<open>OBJECT_REQUEST\<close> branch the payload is
  taken to be text that decodes, and \<open>load_object\<close> gives \<open>None\<close> for everything the
  test \<open>if obj_data\<close> turns away, a missing object and an empty one alike.
\<close>

definition process_packet :: "server_env \<Rightarrow> NetworkPacket \<Rightarrow> NetworkPacket" where
  \<open>process_packet sv packet =
     (case open_repository sv (repo_path packet) of
        Inl e \<Rightarrow> response sv packet ERROR (encode_str e)
      | Inr repository \<Rightarrow>
          if \<not> is_repo repository
          then response sv packet ERROR (encode_str (''Repository not found at '' @ repo_path packet))
          else if packet_type packet = HANDSHAKE
          then response sv packet HANDSHAKE_ACK (encode_str ''{"status": "ok"}'')
          else if packet_type packet = OBJECT_REQUEST
          then
            let object_hash = decode_str (payload packet)
            in (case load_object repository object_hash of
                  Some obj_bytes \<Rightarrow> response sv packet OBJECT_RESPONSE obj_bytes
                | None \<Rightarrow>
                    response sv packet ERROR (encode_str (''Object '' @ object_hash @ '' not found'')))
          else if packet_type packet = REF_REQUEST
          then response sv packet REF_RESPONSE
                 (dumps_refs sv (if refs_dir_exists repository then ref_files repository else []))
          else if packet_type packet = PUSH_REQUEST
          then response sv packet PUSH_RESPONSE (encode_str ''{"status": "received"}'')
          else response sv packet ERROR
                 (encode_str (''Unknown packet type: '' @ str_packet_type sv (packet_type packet))))\<close>

text \<open>A server for the worked example: one repository, \<open>repo\<close>, that holds the block \<open>k1\<close>.\<close>

fun demo_str_packet_type :: "PacketType \<Rightarrow> string" where
  "demo_str_packet_type HANDSHAKE = ''PacketType.HANDSHAKE''"
| "demo_str_packet_type HANDSHAKE_ACK = ''PacketType.HANDSHAKE_ACK''"
| "demo_str_packet_type OBJECT_REQUEST = ''PacketType.OBJECT_REQUEST''"
| "demo_str_packet_type OBJECT_RESPONSE = ''PacketType.OBJECT_RESPONSE''"
| "demo_str_packet_type BLOCK_REQUEST = ''PacketType.BLOCK_REQUEST''"
| "demo_str_packet_type BLOCK_RESPONSE = ''PacketType.BLOCK_RESPONSE''"
| "demo_str_packet_type REF_REQUEST = ''PacketType.REF_REQUEST''"
| "demo_str_packet_type REF_RESPONSE = ''PacketType.REF_RESPONSE''"
| "demo_str_packet_type PUSH_REQUEST = ''PacketType.PUSH_REQUEST''"
| "demo_str_packet_type PUSH_RESPONSE = ''PacketType.PUSH_RESPONSE''"
| "demo_str_packet_type DATA = ''PacketType.DATA''"
| "demo_str_packet_type ERROR = ''PacketType.ERROR''"

definition demo_repository :: server_repository where
  "demo_repository =
     \<lparr>is_repo = True, load_object = map_of [(''b1'', [6])], refs_dir_exists = True,
      ref_files = [(''main'', ''c2'')], block_store = [''k1'' \<mapsto> [10]]\<rparr>"

definition demo_server :: server_env where
  "demo_server =
     \<lparr>open_repository = (\<lambda>p. if p = ''repo'' then Inr demo_repository
                               else Inr (demo_repository\<lparr>is_repo := False\<rparr>)),
      server_digest = demo_digest,
      dumps_refs = (\<lambda>items. concat (map (\<lambda>(n, h). encode_str (n @ ''='' @ h @ '';'')) items)),
      str_packet_type = demo_str_packet_type\<rparr>"

section \<open>Vocabulary for the claims about the traversal\<close>

fun call_hash :: "call \<Rightarrow> hash" where
  "call_hash (ObjectRequest h) = h"
| "call_hash (BlockRequest h) = h"

text \<open>A request that came back with nothing: \<open>None\<close> or the empty byte string.\<close>

fun call_failed :: "env \<Rightarrow> RemoteRepository \<Rightarrow> call \<Rightarrow> bool" where
  "call_failed ev remote (ObjectRequest h) = (\<not> truthy (request_object ev remote h))"
| "call_failed ev remote (BlockRequest h) = (\<not> truthy (request_block ev remote h))"

text \<open>The requests sent between two states of one run.\<close>

definition new_calls :: "state \<Rightarrow> state \<Rightarrow> call list" where
  "new_calls st st' = drop (length (calls st)) (calls st')"

text \<open>
  What every part of the traversal does to the state: refs, \<open>HEAD\<close> and the working tree
  stay, \<open>fetched\<close> grows, and the requests it adds are for pairwise different hashes,
  none of them in \<open>fetched\<close> before; when the part returns, the requested hashes are in
  \<open>fetched\<close> and every request was answered; a request that was not answered ends the
  part with a \<open>ClickException\<close>.
\<close>

definition effect :: "env \<Rightarrow> RemoteRepository \<Rightarrow> state \<Rightarrow> outcome \<times> state \<Rightarrow> bool" where
  "effect ev remote st res =
     (case res of (r, st') \<Rightarrow>
        refs st' = refs st \<and> HEAD st' = HEAD st \<and> restored st' = restored st
        \<and> fetched st \<subseteq> fetched st'
        \<and> (\<exists>xs. calls st' = calls st @ xs
                \<and> distinct (map call_hash xs)
                \<and> set (map call_hash xs) \<inter> fetched st = {}
                \<and> (r = Returned \<longrightarrow> set (map call_hash xs) \<subseteq> fetched st'
                                     \<and> (\<forall>c \<in> set xs. \<not> call_failed ev remote c))
                \<and> ((\<exists>c \<in> set xs. call_failed ev remote c) \<longrightarrow> (\<exists>msg. r = Raised (ClickException msg)))))"

section \<open>A model of \<open>fnmatch\<close> for patterns without bracket expressions\<close>

text \<open>
  \<open>fnmatch.fnmatch(name, pat)\<close> on POSIX, for patterns made of \<open>*\<close> (any run of
  characters, \<open>/\<close> included), \<open>?\<close> (any one character) and literal characters. The
  matcher is not part of the repository; \<open>matches_filter\<close> takes it as an argument, and
  this instance serves the worked examples.
\<close>

fun wild_match :: "string \<Rightarrow> string \<Rightarrow> bool" where
  "wild_match [] s = (s = [])"
| "wild_match (p # ps) s =
     (if p = CHR ''*''
      then (if wild_match ps s then True
            else (case s of [] \<Rightarrow> False | c # cs \<Rightarrow> wild_match (p # ps) cs))
      else (case s of [] \<Rightarrow> False | c # cs \<Rightarrow> (p = CHR ''?'' \<or> p = c) \<and> wild_match ps cs))"

definition fnmatchcase :: "string \<Rightarrow> string \<Rightarrow> bool" where
  "fnmatchcase nm pat = wild_match pat nm"

section \<open>The path filter as the specification words it\<close>

text \<open>
  The specification: when \<open>**\<close> is present, the pattern is split at the first \<open>**\<close> into
  a prefix and a suffix; the path must start with the prefix (trailing slash stripped)
  and, if a suffix exists, match the suffix as a suffix-glob. Otherwise standard glob
  matching applies.
\<close>

fun split_first_acc :: "string \<Rightarrow> string \<Rightarrow> string \<times> string" where
  "split_first_acc acc (c # d # rest) =
     (if c = CHR ''*'' \<and> d = CHR ''*'' then (rev acc, rest)
      else split_first_acc (c # acc) (d # rest))"
| "split_first_acc acc [c] = (rev (c # acc), [])"
| "split_first_acc acc [] = (rev acc, [])"

definition split_at_first_stars :: "string \<Rightarrow> string \<times> string" where
  "split_at_first_stars s = split_first_acc [] s"

definition spec_matches_filter :: "(string \<Rightarrow> string \<Rightarrow> bool) \<Rightarrow> string \<Rightarrow> string \<Rightarrow> bool" where
  "spec_matches_filter fnm path filter_pattern =
     (if contains_stars filter_pattern then
        (case split_at_first_stars filter_pattern of
           (prefix, suffix) \<Rightarrow>
             startswith path (rstrip_slash prefix)
             \<and> (suffix = [] \<or> fnm path (CHR ''*'' # lstrip_slash suffix)))
      else fnm path filter_pattern)"

section \<open>Vocabulary for the claims about the block store\<close>

text \<open>
  Two states that differ at most in the block tier and in what was printed, and two
  results with the same outcome and such states.
\<close>

definition same_but_store :: "state \<Rightarrow> state \<Rightarrow> bool" where
  "same_but_store a b \<longleftrightarrow>
     fetched a = fetched b \<and> objects a = objects b \<and> refs a = refs b \<and> HEAD a = HEAD b
     \<and> restored a = restored b \<and> calls a = calls b"

definition sim_results :: "outcome \<times> state \<Rightarrow> outcome \<times> state \<Rightarrow> bool" where
  "sim_results x y \<longleftrightarrow> fst x = fst y \<and> same_but_store (snd x) (snd y)"

section \<open>A small remote for the worked examples\<close>

text \<open>
  Two commits, \<open>c2\<close> on top of \<open>c1\<close>. The tree of \<open>c2\<close> names the blob \<open>b1\<close> twice
  (\<open>a.txt\<close> and \<open>copy.txt\<close>) and holds a directory \<open>d\<close> whose tree \<open>t3\<close> has one file
  \<open>f.txt\<close>, the blob \<open>b2\<close> with the block \<open>k2\<close>.
\<close>

definition demo_remote :: RemoteRepository where
  "demo_remote = \<lparr>r_name = ''origin'', r_url = ''cof://example:7357/repo'',
                   r_host = ''example'', r_port = 7357, r_protocol = ''udp''\<rparr>"

definition demo_objects :: "(hash \<times> bytes) list" where
  "demo_objects = [(''c2'', [1]), (''c1'', [2]), (''t1'', [3]), (''t0'', [4]),
                   (''t3'', [5]), (''b1'', [6]), (''b2'', [7])]"

definition demo_blocks :: "(hash \<times> bytes) list" where
  "demo_blocks = [(''k1'', [10]), (''k2'', [11])]"

definition demo_loads :: "bytes \<Rightarrow> string + obj_dict" where
  "demo_loads data =
     (if data = [1] then Inr \<lparr>parent = Some ''c1'', tree_root = Some ''t1'', entries = None, block_hashes = None\<rparr>
      else if data = [2] then Inr \<lparr>parent = None, tree_root = Some ''t0'', entries = None, block_hashes = None\<rparr>
      else if data = [3] then Inr \<lparr>parent = None, tree_root = None,
              entries = Some [(''a.txt'', \<lparr>entry_kind = File, entry_hash = ''b1''\<rparr>),
                              (''copy.txt'', \<lparr>entry_kind = File, entry_hash = ''b1''\<rparr>),
                              (''d'', \<lparr>entry_kind = Dir, entry_hash = ''t3''\<rparr>)],
              block_hashes = None\<rparr>
      else if data = [4] then Inr \<lparr>parent = None, tree_root = None,
              entries = Some [(''a.txt'', \<lparr>entry_kind = File, entry_hash = ''b1''\<rparr>)],
              block_hashes = None\<rparr>
      else if data = [5] then Inr \<lparr>parent = None, tree_root = None,
              entries = Some [(''f.txt'', \<lparr>entry_kind = File, entry_hash = ''b2''\<rparr>)],
              block_hashes = None\<rparr>
      else if data = [6] then Inr \<lparr>parent = None, tree_root = None, entries = None, block_hashes = Some [''k1'']\<rparr>
      else if data = [7] then Inr \<lparr>parent = None, tree_root = None, entries = None, block_hashes = Some [''k2'']\<rparr>
      else Inl ''Expecting value'')"

definition demo_store_block :: "bytes \<Rightarrow> hash" where
  "demo_store_block data = (if data = [10] then ''k1'' else if data = [11] then ''k2'' else ''00'')"

definition demo_env :: env where
  "demo_env = \<lparr>handshake = (\<lambda>_. True),
               request_refs = (\<lambda>_. [(''main'', ''c2'')]),
               request_object = (\<lambda>_. map_of demo_objects),
               request_block = (\<lambda>_. map_of demo_blocks),
               loads = demo_loads,
               store_block = demo_store_block,
               fnmatch = fnmatchcase,
               from_url = (\<lambda>_ _. Inr demo_remote),
               get_remote = (\<lambda>n. if n = ''origin'' then Some demo_remote else None),
               get_head_commit = (\<lambda>st. refs st ''main''),
               target_not_empty = (\<lambda>_. False),
               config_loaded = (\<lambda>_. True)\<rparr>"

text \<open>The same remote behind a client whose block requests all fail.\<close>

definition lossy_env :: env where
  "lossy_env = demo_env\<lparr>request_block := (\<lambda>_ _. None)\<rparr>"

text \<open>The same remote in front of a store that files every block under \<open>ffff\<close>.\<close>

definition mismatch_env :: env where
  "mismatch_env = demo_env\<lparr>store_block := (\<lambda>_. ''ffff'')\<rparr>"

definition empty_repo :: state where
  "empty_repo = \<lparr>fetched = {}, objects = Map.empty, blocks = Map.empty, refs = Map.empty,
                 HEAD = None, restored = 0, echoed = [], calls = []\<rparr>"

text \<open>A local repository whose \<open>main\<close> already points at the remote's tip.\<close>

definition up_to_date_repo :: state where
  "up_to_date_repo = empty_repo\<lparr>refs := [''main'' \<mapsto> ''c2'']\<rparr>"

section \<open>How the traversal changes the state\<close>

lemma effect_refl: "effect ev remote st (Returned, st)"
  by (simp add: effect_def)

lemma effect_trans:
  assumes "effect ev remote st (Returned, st1)" and "effect ev remote st1 (r, st2)"
  shows "effect ev remote st (r, st2)"
proof -
  from assms(1) obtain xs where xs: "calls st1 = calls st @ xs" "distinct (map call_hash xs)"
    "set (map call_hash xs) \<inter> fetched st = {}" "set (map call_hash xs) \<subseteq> fetched st1"
    "\<forall>c \<in> set xs. \<not> call_failed ev remote c"
    and fr1: "refs st1 = refs st" "HEAD st1 = HEAD st" "restored st1 = restored st" "fetched st \<subseteq> fetched st1"
    by (auto simp: effect_def)
  from assms(2) obtain ys where ys: "calls st2 = calls st1 @ ys" "distinct (map call_hash ys)"
    "set (map call_hash ys) \<inter> fetched st1 = {}"
    "r = Returned \<longrightarrow> set (map call_hash ys) \<subseteq> fetched st2 \<and> (\<forall>c \<in> set ys. \<not> call_failed ev remote c)"
    "(\<exists>c \<in> set ys. call_failed ev remote c) \<longrightarrow> (\<exists>msg. r = Raised (ClickException msg))"
    and fr2: "refs st2 = refs st1" "HEAD st2 = HEAD st1" "restored st2 = restored st1" "fetched st1 \<subseteq> fetched st2"
    by (auto simp: effect_def)
  have c: "calls st2 = calls st @ (xs @ ys)" using xs(1) ys(1) by simp
  have d: "distinct (map call_hash (xs @ ys))" using xs(2,4) ys(2,3) by auto
  have e: "set (map call_hash (xs @ ys)) \<inter> fetched st = {}" using xs(3) ys(3) fr1(4) by auto
  have f: "r = Returned \<longrightarrow> set (map call_hash (xs @ ys)) \<subseteq> fetched st2 \<and> (\<forall>c \<in> set (xs @ ys). \<not> call_failed ev remote c)"
    using xs(4,5) ys(4) fr2(4) by auto
  have g: "(\<exists>c \<in> set (xs @ ys). call_failed ev remote c) \<longrightarrow> (\<exists>msg. r = Raised (ClickException msg))"
    using xs(5) ys(5) by auto
  show ?thesis unfolding effect_def using c d e f g fr1 fr2 by (simp only: prod.case) (intro conjI exI[of _ "xs @ ys"]; (simp; fail)?; auto)
qed

lemma fetch_block_effect: "effect ev remote st (fetch_block ev remote h st)"
  by (auto simp: fetch_block_def effect_def Let_def log_call_def add_fetched_def echo_def)

lemma effect_then:
  "effect ev remote st (Returned, st1) \<Longrightarrow> effect ev remote st1 res \<Longrightarrow> effect ev remote st res"
  by (cases res) (simp add: effect_trans)

lemma fetch_blocks_effect: "effect ev remote st (fetch_blocks ev remote hs st)"
proof (induction hs arbitrary: st)
  case Nil
  show ?case by (simp add: effect_refl)
next
  case (Cons h hs)
  obtain r st1 where s: "fetch_block ev remote h st = (r, st1)" by (cases "fetch_block ev remote h st")
  have e1: "effect ev remote st (r, st1)" using fetch_block_effect[of ev remote st h] s by simp
  show ?case
  proof (cases r)
    case Returned
    then show ?thesis using s e1 Cons.IH[of st1] by (simp add: effect_then)
  qed (use s e1 in auto)
qed

lemma effect_request_failed:
  "h \<notin> fetched st \<Longrightarrow> call_failed ev remote c \<Longrightarrow> call_hash c = h \<Longrightarrow>
   effect ev remote st (Raised (ClickException msg), log_call c st)"
  by (simp add: effect_def log_call_def)

lemma effect_request_ok:
  "h \<notin> fetched st \<Longrightarrow> \<not> call_failed ev remote c \<Longrightarrow> call_hash c = h \<Longrightarrow>
   effect ev remote st (Returned, add_fetched h (log_call c st))"
  by (auto simp add: effect_def log_call_def add_fetched_def)

lemma effect_save: "effect ev remote st (Returned, save_object h obj st)"
  by (simp add: effect_def save_object_def)

lemma effect_raise_nocall: "effect ev remote st (Raised e, st)"
  by (simp add: effect_def)

lemma fetch_entry_effect: "effect ev remote st (fetch_entry ev remote pf cp e st)"
proof -
  let ?h = "entry_hash (snd e)"
  show ?thesis
  proof (cases "?h \<in> fetched st \<or> (truthy pf \<and> \<not> matches_filter (fnmatch ev) (if cp \<noteq> [] then os_path_join cp (fst e) else fst e) (the pf))")
    case True
    then show ?thesis by (auto simp: fetch_entry_def Let_def effect_refl)
  next
    case False
    show ?thesis
    proof (cases "truthy (request_object ev remote ?h)")
      case f: False
      then show ?thesis using False
        by (auto simp: fetch_entry_def Let_def intro!: effect_request_failed[where h = ?h])
    next
      case t: True
      have a: "effect ev remote st (Returned, add_fetched ?h (log_call (ObjectRequest ?h) st))"
        using False t by (intro effect_request_ok) auto
      show ?thesis
      proof (cases "loads ev (the (request_object ev remote ?h))")
        case (Inl msg)
        then show ?thesis using False t effect_then[OF a effect_raise_nocall]
          by (auto simp: fetch_entry_def Let_def)
      next
        case (Inr blob_dict)
        have b: "effect ev remote st (Returned, save_object ?h blob_dict (add_fetched ?h (log_call (ObjectRequest ?h) st)))"
          using effect_then[OF a effect_save] .
        show ?thesis using False t Inr b effect_then[OF b fetch_blocks_effect]
          by (auto simp: fetch_entry_def Let_def split: option.splits)
      qed
    qed
  qed
qed


lemma fetch_entries_effect: "effect ev remote st (fetch_entries ev remote pf cp es st)"
proof (induction es arbitrary: st)
  case Nil
  show ?case by (simp add: effect_refl)
next
  case (Cons e es)
  obtain r st1 where s: "fetch_entry ev remote pf cp e st = (r, st1)"
    by (cases "fetch_entry ev remote pf cp e st")
  have e1: "effect ev remote st (r, st1)" using fetch_entry_effect[of ev remote st pf cp e] s by simp
  show ?case
  proof (cases r)
    case Returned
    then show ?thesis using s e1 Cons.IH[of st1] by (simp add: effect_then)
  qed (use s e1 in auto)
qed

lemma fetch_tree_recursive_effect: "effect ev remote st (fetch_tree_recursive ev remote h pf cp st)"
proof (cases "h \<in> fetched st")
  case True
  then show ?thesis by (simp add: fetch_tree_recursive_def effect_refl)
next
  case False
  show ?thesis
  proof (cases "truthy (request_object ev remote h)")
    case f: False
    then show ?thesis using False
      by (auto simp: fetch_tree_recursive_def Let_def intro!: effect_request_failed[where h = h])
  next
    case t: True
    have a: "effect ev remote st (Returned, add_fetched h (log_call (ObjectRequest h) st))"
      using False t by (intro effect_request_ok) auto
    show ?thesis
    proof (cases "loads ev (the (request_object ev remote h))")
      case (Inl msg)
      then show ?thesis using False t effect_then[OF a effect_raise_nocall]
        by (auto simp: fetch_tree_recursive_def Let_def)
    next
      case (Inr tree_dict)
      have b: "effect ev remote st (Returned, save_object h tree_dict (add_fetched h (log_call (ObjectRequest h) st)))"
        using effect_then[OF a effect_save] .
      show ?thesis using False t Inr b effect_then[OF b fetch_entries_effect]
        by (auto simp: fetch_tree_recursive_def Let_def split: option.splits)
    qed
  qed
qed

lemma log_add_commute: "log_call c (add_fetched h st) = add_fetched h (log_call c st)"
  by (simp add: log_call_def add_fetched_def)

lemma effect_out_of_fuel: "effect ev remote st (OutOfFuel, st)"
  by (simp add: effect_def)

lemma effect_request_failed_added:
  "h \<notin> fetched st \<Longrightarrow> call_failed ev remote c \<Longrightarrow> call_hash c = h \<Longrightarrow>
   effect ev remote st (Raised (ClickException msg), add_fetched h (log_call c st))"
  by (auto simp add: effect_def log_call_def add_fetched_def)

text \<open>One level of \<open>_fetch_objects_recursive\<close> once the object has arrived and decoded.\<close>

lemma fetch_objects_recursive_step:
  assumes "h \<notin> fetched st" and "truthy (request_object ev remote h)"
    and "loads ev (the (request_object ev remote h)) = Inr obj"
  shows "fetch_objects_recursive (Suc fuel) ev remote h depth cd pf st =
     (case (if truthy (parent obj) \<and> (depth = None \<or> cd < the depth - 1)
            then fetch_objects_recursive fuel ev remote (the (parent obj)) depth (cd + 1) pf
                   (save_object h obj (add_fetched h (log_call (ObjectRequest h) st)))
            else (Returned, save_object h obj (add_fetched h (log_call (ObjectRequest h) st)))) of
        (Returned, st3) \<Rightarrow>
          (case tree_root obj of
             None \<Rightarrow> (Returned, st3)
           | Some t \<Rightarrow> fetch_tree_recursive ev remote t pf [] st3)
      | (Raised e, st3) \<Rightarrow> (Raised e, st3)
      | (OutOfFuel, st3) \<Rightarrow> (OutOfFuel, st3))"
proof (cases "truthy (parent obj) \<and> (depth = None \<or> cd < the depth - 1)")
  case True
  obtain r st3 where rec: "fetch_objects_recursive fuel ev remote (the (parent obj)) depth (cd + 1) pf
      (save_object h obj (add_fetched h (log_call (ObjectRequest h) st))) = (r, st3)"
    by (cases "fetch_objects_recursive fuel ev remote (the (parent obj)) depth (cd + 1) pf
      (save_object h obj (add_fetched h (log_call (ObjectRequest h) st)))")
  from True have p: "truthy (parent obj)" and d: "depth = None \<or> cd < the depth - 1" by simp_all
  show ?thesis
    using assms p d rec by (cases r) (simp_all add: Let_def log_add_commute)
next
  case False
  then have "\<not> truthy (parent obj) \<or> (truthy (parent obj) \<and> \<not> (depth = None \<or> cd < the depth - 1))"
    by blast
  then show ?thesis
  proof
    assume "\<not> truthy (parent obj)"
    then show ?thesis using assms by (simp add: Let_def log_add_commute)
  next
    assume "truthy (parent obj) \<and> \<not> (depth = None \<or> cd < the depth - 1)"
    then obtain d where "truthy (parent obj)" and "depth = Some d" and "\<not> cd < d - 1"
      by (cases depth) auto
    then show ?thesis using assms by (simp add: Let_def log_add_commute)
  qed
qed

lemma fetch_objects_recursive_effect:
  "effect ev remote st (fetch_objects_recursive fuel ev remote h depth cd pf st)"
proof (induction fuel arbitrary: h cd st)
  case 0
  show ?case by (simp add: effect_out_of_fuel)
next
  case (Suc fuel)
  show ?case
  proof (cases "h \<in> fetched st")
    case True
    then show ?thesis by (simp add: effect_refl)
  next
    case False
    show ?thesis
    proof (cases "truthy (request_object ev remote h)")
      case f: False
      then show ?thesis using False
        by (auto simp: Let_def log_add_commute intro!: effect_request_failed_added[where h = h])
    next
      case t: True
      let ?st1 = "add_fetched h (log_call (ObjectRequest h) st)"
      have a: "effect ev remote st (Returned, ?st1)"
        using False t by (intro effect_request_ok) auto
      show ?thesis
      proof (cases "loads ev (the (request_object ev remote h))")
        case (Inl msg)
        then show ?thesis using False t effect_then[OF a effect_raise_nocall]
          by (auto simp: Let_def log_add_commute)
      next
        case (Inr obj)
        let ?st2 = "save_object h obj ?st1"
        have b: "effect ev remote st (Returned, ?st2)"
          using effect_then[OF a effect_save] .
        define res where "res = (if truthy (parent obj) \<and> (depth = None \<or> cd < the depth - 1)
                          then fetch_objects_recursive fuel ev remote (the (parent obj)) depth (cd + 1) pf ?st2
                          else (Returned, ?st2))"
        have c0: "effect ev remote ?st2 res"
          unfolding res_def using Suc.IH by (simp add: effect_refl)
        have c: "effect ev remote st res" using effect_then[OF b c0] .
        have unfold: "fetch_objects_recursive (Suc fuel) ev remote h depth cd pf st =
            (case res of
               (Returned, st3) \<Rightarrow>
                 (case tree_root obj of
                    None \<Rightarrow> (Returned, st3)
                  | Some t \<Rightarrow> fetch_tree_recursive ev remote t pf [] st3)
             | (Raised e, st3) \<Rightarrow> (Raised e, st3)
             | (OutOfFuel, st3) \<Rightarrow> (OutOfFuel, st3))"
          unfolding res_def using fetch_objects_recursive_step[OF False t Inr] .
        obtain r st3 where res: "res = (r, st3)" by (cases res)
        show ?thesis
        proof (cases r)
          case Returned
          then show ?thesis using unfold res c effect_then[OF _ fetch_tree_recursive_effect]
            by (auto split: option.splits)
        qed (use unfold res c in auto)
      qed
    qed
  qed
qed

lemma effect_callsD:
  assumes "effect ev remote st (r, st')"
  shows "calls st' = calls st @ new_calls st st'"
    and "distinct (map call_hash (new_calls st st'))"
    and "set (map call_hash (new_calls st st')) \<inter> fetched st = {}"
    and "(\<exists>c \<in> set (new_calls st st'). call_failed ev remote c) \<Longrightarrow> \<exists>msg. r = Raised (ClickException msg)"
    and "r = Returned \<Longrightarrow> \<forall>c \<in> set (new_calls st st'). \<not> call_failed ev remote c"
    and "refs st' = refs st" and "HEAD st' = HEAD st" and "restored st' = restored st"
    and "fetched st \<subseteq> fetched st'"
proof -
  from assms obtain xs where xs: "calls st' = calls st @ xs" "distinct (map call_hash xs)"
    "set (map call_hash xs) \<inter> fetched st = {}"
    "r = Returned \<longrightarrow> (\<forall>c \<in> set xs. \<not> call_failed ev remote c)"
    "(\<exists>c \<in> set xs. call_failed ev remote c) \<longrightarrow> (\<exists>msg. r = Raised (ClickException msg))"
    unfolding effect_def by auto
  have n: "new_calls st st' = xs" by (simp add: new_calls_def xs(1))
  show "calls st' = calls st @ new_calls st st'" using xs(1) n by simp
  show "distinct (map call_hash (new_calls st st'))" using xs(2) n by simp
  show "set (map call_hash (new_calls st st')) \<inter> fetched st = {}" using xs(3) n by simp
  show "(\<exists>c \<in> set (new_calls st st'). call_failed ev remote c) \<Longrightarrow> \<exists>msg. r = Raised (ClickException msg)"
    using xs(5) n by simp
  show "r = Returned \<Longrightarrow> \<forall>c \<in> set (new_calls st st'). \<not> call_failed ev remote c"
    using xs(4) n by simp
  show "refs st' = refs st" and "HEAD st' = HEAD st" and "restored st' = restored st"
    and "fetched st \<subseteq> fetched st'"
    using assms unfolding effect_def by simp_all
qed

lemma fetch_objects_recursive_adds_hash:
  "h \<in> fetched (snd (fetch_objects_recursive (Suc fuel) ev remote h depth cd pf st))"
proof (cases "h \<in> fetched st")
  case True
  then show ?thesis by simp
next
  case False
  show ?thesis
  proof (cases "truthy (request_object ev remote h)")
    case f: False
    then show ?thesis using False by (simp add: Let_def log_call_def add_fetched_def)
  next
    case t: True
    show ?thesis
    proof (cases "loads ev (the (request_object ev remote h))")
      case (Inl msg)
      then show ?thesis using False t by (simp add: Let_def log_call_def add_fetched_def)
    next
      case (Inr obj)
      let ?st2 = "save_object h obj (add_fetched h (log_call (ObjectRequest h) st))"
      define res where "res = (if truthy (parent obj) \<and> (depth = None \<or> cd < the depth - 1)
            then fetch_objects_recursive fuel ev remote (the (parent obj)) depth (cd + 1) pf ?st2
            else (Returned, ?st2))"
      have in2: "h \<in> fetched ?st2" by (simp add: save_object_def add_fetched_def)
      have e: "effect ev remote ?st2 res"
        unfolding res_def by (simp add: effect_refl fetch_objects_recursive_effect)
      obtain r st3 where res: "res = (r, st3)" by (cases res)
      have in3: "h \<in> fetched st3" using effect_callsD(9)[OF e[unfolded res]] in2 by blast
      have unfold: "fetch_objects_recursive (Suc fuel) ev remote h depth cd pf st =
            (case res of
               (Returned, st3) \<Rightarrow>
                 (case tree_root obj of
                    None \<Rightarrow> (Returned, st3)
                  | Some t \<Rightarrow> fetch_tree_recursive ev remote t pf [] st3)
             | (Raised e, st3) \<Rightarrow> (Raised e, st3)
             | (OutOfFuel, st3) \<Rightarrow> (OutOfFuel, st3))"
        unfolding res_def using fetch_objects_recursive_step[OF False t Inr] .
      show ?thesis
      proof (cases r)
        case Returned
        show ?thesis
        proof (cases "tree_root obj")
          case None
          then show ?thesis using unfold res Returned in3 by simp
        next
          case (Some t)
          obtain r4 st4 where t4: "fetch_tree_recursive ev remote t pf [] st3 = (r4, st4)"
            by (cases "fetch_tree_recursive ev remote t pf [] st3")
          have "effect ev remote st3 (r4, st4)"
            using fetch_tree_recursive_effect[of ev remote st3 t pf "[]"] t4 by simp
          then have "fetched st3 \<subseteq> fetched st4" by (rule effect_callsD(9))
          then show ?thesis using unfold res Returned in3 Some t4 by auto
        qed
      qed (use unfold res in3 in auto)
    qed
  qed
qed

lemma new_calls_echo [simp]: "new_calls st (echo msg st') = new_calls st st'"
  by (simp add: new_calls_def echo_def)

lemma new_calls_self [simp]: "new_calls st st = []"
  by (simp add: new_calls_def)

lemma new_calls_reset_fetched [simp]: "new_calls (st\<lparr>fetched := F\<rparr>) st' = new_calls st st'"
  by (simp add: new_calls_def)

lemma echo_frame [simp]:
  "refs (echo msg st) = refs st" "HEAD (echo msg st) = HEAD st" "restored (echo msg st) = restored st"
  "calls (echo msg st) = calls st"
  by (simp_all add: echo_def)

section \<open>The traversal does not look at the hashes the store returns\<close>

lemma sim_resultsI: "r = r' \<Longrightarrow> same_but_store a b \<Longrightarrow> sim_results (r, a) (r', b)"
  by (simp add: sim_results_def)

lemma fetch_block_sim:
  assumes "same_but_store a b"
  shows "sim_results (fetch_block ev remote h a) (fetch_block (ev\<lparr>store_block := g\<rparr>) remote h b)"
  using assms
  by (auto simp: sim_results_def same_but_store_def fetch_block_def Let_def log_call_def add_fetched_def echo_def)

lemma fetch_blocks_sim:
  assumes "same_but_store a b"
  shows "sim_results (fetch_blocks ev remote hs a) (fetch_blocks (ev\<lparr>store_block := g\<rparr>) remote hs b)"
  using assms
proof (induction hs arbitrary: a b)
  case Nil
  then show ?case by (simp add: sim_results_def)
next
  case (Cons h hs)
  obtain r a1 where A: "fetch_block ev remote h a = (r, a1)" by (cases "fetch_block ev remote h a")
  obtain r' b1 where B: "fetch_block (ev\<lparr>store_block := g\<rparr>) remote h b = (r', b1)"
    by (cases "fetch_block (ev\<lparr>store_block := g\<rparr>) remote h b")
  have s: "r = r'" "same_but_store a1 b1"
    using fetch_block_sim[OF Cons.prems, of ev remote h g] A B by (simp_all add: sim_results_def)
  show ?case
  proof (cases r)
    case Returned
    then show ?thesis using A B s Cons.IH[OF s(2)] by simp
  qed (use A B s in \<open>simp_all add: sim_results_def\<close>)
qed

lemma fetch_entry_sim:
  assumes "same_but_store a b"
  shows "sim_results (fetch_entry ev remote pf cp e a) (fetch_entry (ev\<lparr>store_block := g\<rparr>) remote pf cp e b)"
proof -
  have s: "same_but_store (save_object h obj (add_fetched h (log_call c a)))
                          (save_object h obj (add_fetched h (log_call c b)))" for h obj c
    using assms by (simp add: same_but_store_def save_object_def add_fetched_def log_call_def)
  have s1: "same_but_store (log_call c a) (log_call c b)" for c
    using assms by (simp add: same_but_store_def log_call_def)
  have s2: "same_but_store (add_fetched h (log_call c a)) (add_fetched h (log_call c b))" for c h
    using assms by (simp add: same_but_store_def log_call_def add_fetched_def)
  have f: "fetched a = fetched b" using assms by (simp add: same_but_store_def)
  show ?thesis
    unfolding fetch_entry_def Let_def
    using assms f s s1 s2 fetch_blocks_sim[OF s]
    by (auto simp: sim_results_def split: sum.splits option.splits)
qed

lemma fetch_entries_sim:
  assumes "same_but_store a b"
  shows "sim_results (fetch_entries ev remote pf cp es a) (fetch_entries (ev\<lparr>store_block := g\<rparr>) remote pf cp es b)"
  using assms
proof (induction es arbitrary: a b)
  case Nil
  then show ?case by (simp add: sim_results_def)
next
  case (Cons e es)
  obtain r a1 where A: "fetch_entry ev remote pf cp e a = (r, a1)" by (cases "fetch_entry ev remote pf cp e a")
  obtain r' b1 where B: "fetch_entry (ev\<lparr>store_block := g\<rparr>) remote pf cp e b = (r', b1)"
    by (cases "fetch_entry (ev\<lparr>store_block := g\<rparr>) remote pf cp e b")
  have s: "r = r'" "same_but_store a1 b1"
    using fetch_entry_sim[OF Cons.prems, of ev remote pf cp e g] A B by (simp_all add: sim_results_def)
  show ?case
  proof (cases r)
    case Returned
    then show ?thesis using A B s Cons.IH[OF s(2)] by simp
  qed (use A B s in \<open>simp_all add: sim_results_def\<close>)
qed

lemma fetch_tree_recursive_sim:
  assumes "same_but_store a b"
  shows "sim_results (fetch_tree_recursive ev remote h pf cp a)
                     (fetch_tree_recursive (ev\<lparr>store_block := g\<rparr>) remote h pf cp b)"
proof -
  have s: "same_but_store (save_object h obj (add_fetched h (log_call c a)))
                          (save_object h obj (add_fetched h (log_call c b)))" for h obj c
    using assms by (simp add: same_but_store_def save_object_def add_fetched_def log_call_def)
  have s1: "same_but_store (log_call c a) (log_call c b)" for c
    using assms by (simp add: same_but_store_def log_call_def)
  have s2: "same_but_store (add_fetched h (log_call c a)) (add_fetched h (log_call c b))" for c h
    using assms by (simp add: same_but_store_def log_call_def add_fetched_def)
  have f: "fetched a = fetched b" using assms by (simp add: same_but_store_def)
  show ?thesis
    unfolding fetch_tree_recursive_def Let_def
    using assms f s s1 s2 fetch_entries_sim[OF s]
    by (auto simp: sim_results_def split: sum.splits option.splits)
qed

lemma fetch_objects_recursive_sim:
  assumes "same_but_store a b"
  shows "sim_results (fetch_objects_recursive fuel ev remote h depth cd pf a)
                     (fetch_objects_recursive fuel (ev\<lparr>store_block := g\<rparr>) remote h depth cd pf b)"
  using assms
proof (induction fuel arbitrary: h cd a b)
  case 0
  then show ?case by (simp add: sim_results_def)
next
  case (Suc fuel)
  let ?ev' = "ev\<lparr>store_block := g\<rparr>"
  have f: "fetched a = fetched b" using Suc.prems by (simp add: same_but_store_def)
  show ?case
  proof (cases "h \<in> fetched a")
    case True
    then show ?thesis using f Suc.prems by (simp add: sim_results_def)
  next
    case False
    then have Fb: "h \<notin> fetched b" using f by simp
    have s1: "same_but_store (log_call c (add_fetched h a)) (log_call c (add_fetched h b))" for c
      using Suc.prems by (simp add: same_but_store_def log_call_def add_fetched_def)
    show ?thesis
    proof (cases "truthy (request_object ev remote h)")
      case nt: False
      then show ?thesis using False Fb s1 by (simp add: Let_def sim_results_def)
    next
      case t: True
      then have t': "truthy (request_object ?ev' remote h)" by simp
      show ?thesis
      proof (cases "loads ev (the (request_object ev remote h))")
        case (Inl msg)
        then show ?thesis using False Fb s1 t by (simp add: Let_def sim_results_def)
      next
        case (Inr obj)
        then have l': "loads ?ev' (the (request_object ?ev' remote h)) = Inr obj" by simp
        let ?a2 = "save_object h obj (add_fetched h (log_call (ObjectRequest h) a))"
        let ?b2 = "save_object h obj (add_fetched h (log_call (ObjectRequest h) b))"
        have s2: "same_but_store ?a2 ?b2"
          using Suc.prems by (simp add: same_but_store_def log_call_def add_fetched_def save_object_def)
        define C where "C \<longleftrightarrow> truthy (parent obj) \<and> (depth = None \<or> cd < the depth - 1)"
        define ra where "ra = (if C
            then fetch_objects_recursive fuel ev remote (the (parent obj)) depth (cd + 1) pf ?a2
            else (Returned, ?a2))"
        define rb where "rb = (if C
            then fetch_objects_recursive fuel ?ev' remote (the (parent obj)) depth (cd + 1) pf ?b2
            else (Returned, ?b2))"
        have sr: "sim_results ra rb"
        proof (cases C)
          case True
          then show ?thesis unfolding ra_def rb_def using Suc.IH[OF s2] by simp
        next
          case False
          then show ?thesis unfolding ra_def rb_def using s2 by (simp add: sim_results_def)
        qed
        note ua = fetch_objects_recursive_step[OF False t Inr, of fuel depth cd pf, folded C_def, folded ra_def]
        note ub = fetch_objects_recursive_step[OF Fb t' l', of fuel depth cd pf, folded C_def, folded rb_def]
        obtain r a3 where A: "ra = (r, a3)" by (cases ra)
        obtain r' b3 where B: "rb = (r', b3)" by (cases rb)
        have s3: "r = r'" "same_but_store a3 b3" using sr A B by (simp_all add: sim_results_def)
        show ?thesis
        proof (cases r)
          case Returned
          have "sim_results
                  (case tree_root obj of None \<Rightarrow> (Returned, a3)
                   | Some t \<Rightarrow> fetch_tree_recursive ev remote t pf [] a3)
                  (case tree_root obj of None \<Rightarrow> (Returned, b3)
                   | Some t \<Rightarrow> fetch_tree_recursive ?ev' remote t pf [] b3)"
            using s3(2) fetch_tree_recursive_sim[OF s3(2)]
            by (cases "tree_root obj") (simp_all add: sim_results_def)
          then show ?thesis unfolding ua ub A B using Returned s3(1) by simp
        next
          case (Raised e)
          then show ?thesis unfolding ua ub A B using s3 by (simp add: sim_results_def)
        next
          case OutOfFuel
          then show ?thesis unfolding ua ub A B using s3 by (simp add: sim_results_def)
        qed
      qed
    qed
  qed
qed

lemma same_but_store_refl: "same_but_store a a"
  by (simp add: same_but_store_def)

section \<open>Facts about the packet codec\<close>

lemma length_checksum_of [simp]: "length (checksum_of blake3 bs) = 16"
  by (simp add: checksum_of_def)

lemma length_encode_str [simp]: "length (encode_str s) = length s"
  by (simp add: encode_str_def)

lemma decode_encode_str [simp]: "decode_str (encode_str s) = s"
proof -
  have "char_of (unat (of_nat (of_char c) :: 8 word)) = c" for c :: char
    by (simp add: unat_of_nat)
  then show ?thesis by (simp add: decode_str_def encode_str_def comp_def map_idI)
qed

lemma packet_type_of_byte_inverse [simp]: "packet_type_of_byte (packet_type_byte t) = Some t"
  by (cases t) (simp_all add: packet_type_of_byte_def packet_types_def)

lemma split_256: "(n::nat) = (n div 256) * 256 + n mod 256"
  by simp

lemma from_be_be16:
  assumes "n < 65536"
  shows "from_be (be16 n) = n"
proof -
  have a: "n div 256 mod 256 = n div 256" using assms by simp
  have "from_be (be16 n) = n div 256 * 256 + n mod 256"
    by (simp add: from_be_def be16_def unat_of_nat a)
  then show ?thesis by simp
qed

lemma from_be_be32:
  assumes "n < 4294967296"
  shows "from_be (be32 n) = n"
proof -
  have a: "n div 16777216 mod 256 = n div 16777216" using assms by simp
  have d1: "n div 256 div 256 = n div 65536" by (simp add: div_mult2_eq[symmetric])
  have d2: "n div 65536 div 256 = n div 16777216" by (simp add: div_mult2_eq[symmetric])
  have e1: "n div 256 = (n div 65536) * 256 + n div 256 mod 256"
    using split_256[of "n div 256"] unfolding d1 .
  have e2: "n div 65536 = (n div 16777216) * 256 + n div 65536 mod 256"
    using split_256[of "n div 65536"] unfolding d2 .
  have "from_be (be32 n) =
      ((n div 16777216 * 256 + n div 65536 mod 256) * 256 + n div 256 mod 256) * 256 + n mod 256"
    by (simp add: from_be_def be32_def unat_of_nat a)
  also have "\<dots> = (n div 65536 * 256 + n div 256 mod 256) * 256 + n mod 256"
    using e2 by simp
  also have "\<dots> = n div 256 * 256 + n mod 256"
    using e1 by simp
  also have "\<dots> = n" by simp
  finally show ?thesis .
qed

lemma read_str_be16:
  assumes "length s < 65536"
  shows "read_str (be16 (length s) @ encode_str s @ rest) = Some (s, rest)"
proof -
  have l: "length (be16 (length s)) = 2" by (simp add: be16_def)
  have t: "take 2 (be16 (length s) @ encode_str s @ rest) = be16 (length s)" using l by simp
  have d: "drop 2 (be16 (length s) @ encode_str s @ rest) = encode_str s @ rest" using l by simp
  show ?thesis
    unfolding read_str_def t d Let_def using assms l by (simp add: from_be_be16)
qed

lemma parse_header_header_bytes:
  assumes "length sid < 65536" and "length rp < 65536"
    and "0 \<le> sq" and "sq < 4294967296" and "0 \<le> tot" and "tot < 4294967296"
  shows "parse_header (header_bytes sid rp sq tot @ pl) = Some (sid, rp, sq, tot, pl)"
proof -
  have l: "length (be32 n) = 4" for n by (simp add: be32_def)
  have s: "nat sq < 4294967296" "nat tot < 4294967296" using assms by linarith+
  have r1: "read_str (header_bytes sid rp sq tot @ pl)
      = Some (sid, be16 (length rp) @ encode_str rp @ be32 (nat sq) @ be32 (nat tot) @ pl)"
    using read_str_be16[OF assms(1)] by (simp add: header_bytes_def)
  have r2: "read_str (be16 (length rp) @ encode_str rp @ be32 (nat sq) @ be32 (nat tot) @ pl)
      = Some (rp, be32 (nat sq) @ be32 (nat tot) @ pl)"
    using read_str_be16[OF assms(2)] by simp
  show ?thesis
    unfolding parse_header_def using l s assms(3,5) by (simp add: r1 r2 from_be_be32)
qed

lemma pack_Inr:
  assumes "pack blake3 p = Inr bs"
  shows "length (session_id p) < 65536" and "length (repo_path p) < 65536"
    and "0 \<le> sequence p" and "sequence p < 4294967296"
    and "0 \<le> total_packets p" and "total_packets p < 4294967296"
    and "bs = encode_str (checksum_of blake3 (body_bytes (packet_type p) (session_id p) (repo_path p)
                 (sequence p) (total_packets p) (payload p)))
              @ body_bytes (packet_type p) (session_id p) (repo_path p) (sequence p) (total_packets p) (payload p)"
  using assms by (auto simp: pack_def Let_def split: if_splits)

lemma length_header_bytes: "12 \<le> length (header_bytes sid rp sq tot)"
  by (simp add: header_bytes_def be16_def be32_def)

lemma hex_char_in_digits: "hex_char n \<in> set ''0123456789abcdef''"
proof -
  have "n mod 16 < length ''0123456789abcdef''" by simp
  then show ?thesis unfolding hex_char_def by (rule nth_mem)
qed

section \<open>Splitting a pattern at its double stars\<close>

lemma split_stars_acc_no_stars:
  "\<not> contains_stars s \<Longrightarrow> split_stars_acc acc s = [rev acc @ s]"
  by (induction acc s rule: split_stars_acc.induct) auto

lemma split_first_acc_no_stars:
  "\<not> contains_stars s \<Longrightarrow> split_first_acc acc s = (rev acc @ s, [])"
  by (induction acc s rule: split_first_acc.induct) auto

lemma split_stars_acc_stars:
  "contains_stars s \<Longrightarrow>
   split_stars_acc acc s = fst (split_first_acc acc s) # split_stars_acc [] (snd (split_first_acc acc s))"
  by (induction acc s rule: split_stars_acc.induct) auto

lemma split_stars_acc_nonempty: "split_stars_acc acc s \<noteq> []"
  by (induction acc s rule: split_stars_acc.induct) auto

lemma length_split_stars_acc:
  "contains_stars s \<longleftrightarrow> 2 \<le> length (split_stars_acc acc s)"
proof (cases "contains_stars s")
  case True
  have "split_stars_acc [] (snd (split_first_acc acc s)) \<noteq> []" by (rule split_stars_acc_nonempty)
  then have "1 \<le> length (split_stars_acc [] (snd (split_first_acc acc s)))"
    by (cases "split_stars_acc [] (snd (split_first_acc acc s))") simp_all
  then show ?thesis using True split_stars_acc_stars[OF True, of acc] by simp
next
  case False
  then show ?thesis by (simp add: split_stars_acc_no_stars)
qed

lemma split_stars_two:
  assumes "split_stars pat = [prefix, suffix]"
  shows "contains_stars pat" and "split_at_first_stars pat = (prefix, suffix)"
    and "\<not> contains_stars suffix"
proof -
  show c: "contains_stars pat"
    using assms length_split_stars_acc[of pat "[]"] by (simp add: split_stars_def)
  from split_stars_acc_stars[OF c, of "[]"] assms
  have p: "fst (split_first_acc [] pat) = prefix"
    and r: "split_stars_acc [] (snd (split_first_acc [] pat)) = [suffix]"
    by (simp_all add: split_stars_def)
  have nc: "\<not> contains_stars (snd (split_first_acc [] pat))"
    using r length_split_stars_acc[of "snd (split_first_acc [] pat)" "[]"] by simp
  then have s: "snd (split_first_acc [] pat) = suffix"
    using r by (simp add: split_stars_acc_no_stars)
  show "split_at_first_stars pat = (prefix, suffix)"
    using p s by (simp add: split_at_first_stars_def prod_eq_iff)
  show "\<not> contains_stars suffix" using nc s by simp
qed

section \<open>The bound on nested calls\<close>

text \<open>
  The bound only cuts a traversal short: a run that did not hit it gives the same result
  under every larger bound. The walk of a tree never hits it, and with a depth limit
  \<open>d\<close> a bound above \<open>d - current_depth\<close> is never hit.
\<close>

lemma fetch_objects_recursive_more_fuel:
  assumes "fst (fetch_objects_recursive fuel ev remote h depth cd pf st) \<noteq> OutOfFuel"
    and "fuel \<le> fuel'"
  shows "fetch_objects_recursive fuel' ev remote h depth cd pf st
           = fetch_objects_recursive fuel ev remote h depth cd pf st"
  using assms
proof (induction fuel arbitrary: fuel' h cd st)
  case 0
  then show ?case by simp
next
  case (Suc fuel)
  from Suc.prems(2) obtain m where m: "fuel' = Suc m" and le: "fuel \<le> m" by (cases fuel') auto
  show ?case
  proof (cases "h \<in> fetched st")
    case True
    then show ?thesis by (simp add: m)
  next
    case False
    show ?thesis
    proof (cases "truthy (request_object ev remote h)")
      case nt: False
      then show ?thesis using False by (simp add: m Let_def)
    next
      case t: True
      show ?thesis
      proof (cases "loads ev (the (request_object ev remote h))")
        case (Inl msg)
        then show ?thesis using False t by (simp add: m Let_def)
      next
        case (Inr obj)
        let ?st2 = "save_object h obj (add_fetched h (log_call (ObjectRequest h) st))"
        define C where "C \<longleftrightarrow> truthy (parent obj) \<and> (depth = None \<or> cd < the depth - 1)"
        define ra where "ra = (if C
            then fetch_objects_recursive fuel ev remote (the (parent obj)) depth (cd + 1) pf ?st2
            else (Returned, ?st2))"
        define rb where "rb = (if C
            then fetch_objects_recursive m ev remote (the (parent obj)) depth (cd + 1) pf ?st2
            else (Returned, ?st2))"
        note ua = fetch_objects_recursive_step[OF False t Inr, of fuel depth cd pf, folded C_def, folded ra_def]
        note ub = fetch_objects_recursive_step[OF False t Inr, of m depth cd pf, folded C_def, folded rb_def]
        have ne: "fst ra \<noteq> OutOfFuel"
        proof
          assume "fst ra = OutOfFuel"
          then obtain s where "ra = (OutOfFuel, s)" by (cases ra) auto
          then have "fst (fetch_objects_recursive (Suc fuel) ev remote h depth cd pf st) = OutOfFuel"
            unfolding ua by simp
          then show False using Suc.prems(1) by simp
        qed
        have "rb = ra"
        proof (cases C)
          case True
          then have "fst (fetch_objects_recursive fuel ev remote (the (parent obj)) depth (cd + 1) pf ?st2)
                       \<noteq> OutOfFuel"
            using ne by (simp add: ra_def)
          from Suc.IH[OF this le] show ?thesis using True by (simp add: ra_def rb_def)
        next
          case False
          then show ?thesis by (simp add: ra_def rb_def)
        qed
        then show ?thesis unfolding m ua ub by simp
      qed
    qed
  qed
qed

lemma fetch_block_not_out_of_fuel: "fst (fetch_block ev remote b x) \<noteq> OutOfFuel"
  by (simp add: fetch_block_def Let_def)

lemma fetch_blocks_not_out_of_fuel: "fst (fetch_blocks ev remote bs x) \<noteq> OutOfFuel"
proof (induction bs arbitrary: x)
  case Nil
  show ?case by simp
next
  case (Cons b bs)
  obtain r x1 where s: "fetch_block ev remote b x = (r, x1)" by (cases "fetch_block ev remote b x")
  have "r \<noteq> OutOfFuel" using fetch_block_not_out_of_fuel[of ev remote b x] s by simp
  then show ?case using s Cons.IH[of x1] by (cases r) simp_all
qed

lemma fetch_entry_not_out_of_fuel: "fst (fetch_entry ev remote pf cp e x) \<noteq> OutOfFuel"
  using fetch_blocks_not_out_of_fuel
  by (simp add: fetch_entry_def Let_def split: sum.splits option.splits)

lemma fetch_entries_not_out_of_fuel: "fst (fetch_entries ev remote pf cp es x) \<noteq> OutOfFuel"
proof (induction es arbitrary: x)
  case Nil
  show ?case by simp
next
  case (Cons e es)
  obtain r x1 where s: "fetch_entry ev remote pf cp e x = (r, x1)"
    by (cases "fetch_entry ev remote pf cp e x")
  have "r \<noteq> OutOfFuel" using fetch_entry_not_out_of_fuel[of ev remote pf cp e x] s by simp
  then show ?case using s Cons.IH[of x1] by (cases r) simp_all
qed

lemma fetch_tree_recursive_not_out_of_fuel:
  "fst (fetch_tree_recursive ev remote t pf cp x) \<noteq> OutOfFuel"
  using fetch_entries_not_out_of_fuel
  by (simp add: fetch_tree_recursive_def Let_def split: sum.splits option.splits)

lemma fetch_objects_recursive_bounded_depth:
  assumes "nat (d - cd) < fuel"
  shows "fst (fetch_objects_recursive fuel ev remote h (Some d) cd pf st) \<noteq> OutOfFuel"
  using assms
proof (induction fuel arbitrary: h cd st)
  case 0
  then show ?case by simp
next
  case (Suc fuel)
  show ?case
  proof (cases "h \<in> fetched st")
    case True
    then show ?thesis by simp
  next
    case False
    show ?thesis
    proof (cases "truthy (request_object ev remote h)")
      case nt: False
      then show ?thesis using False by (simp add: Let_def)
    next
      case t: True
      show ?thesis
      proof (cases "loads ev (the (request_object ev remote h))")
        case (Inl msg)
        then show ?thesis using False t by (simp add: Let_def)
      next
        case (Inr obj)
        let ?st2 = "save_object h obj (add_fetched h (log_call (ObjectRequest h) st))"
        define C where "C \<longleftrightarrow> truthy (parent obj) \<and> (Some d = None \<or> cd < the (Some d) - 1)"
        define ra where "ra = (if C
            then fetch_objects_recursive fuel ev remote (the (parent obj)) (Some d) (cd + 1) pf ?st2
            else (Returned, ?st2))"
        note ua = fetch_objects_recursive_step[OF False t Inr, of fuel "Some d" cd pf, folded C_def, folded ra_def]
        have ne: "fst ra \<noteq> OutOfFuel"
        proof (cases C)
          case True
          then have "cd < d - 1" by (simp add: C_def)
          then have "nat (d - (cd + 1)) < fuel" using Suc.prems by linarith
          from Suc.IH[OF this] show ?thesis using True by (simp add: ra_def)
        next
          case False
          then show ?thesis by (simp add: ra_def)
        qed
        obtain r s where rs: "ra = (r, s)" by (cases ra)
        note tree = fetch_tree_recursive_not_out_of_fuel[of ev remote _ pf "[]" s]
        show ?thesis
          unfolding ua rs using ne rs tree by (cases r) (auto split: option.splits)
      qed
    qed
  qed
qed

section \<open>The worked example, evaluated\<close>

lemma demo_fetch_returns: "fst (fetch_objects_recursive 3 demo_env demo_remote ''c2'' None 0 None empty_repo) = Returned"
  by code_simp

lemma demo_fetch_calls: "calls (snd (fetch_objects_recursive 3 demo_env demo_remote ''c2'' None 0 None empty_repo))
  = [ObjectRequest ''c2'', ObjectRequest ''c1'', ObjectRequest ''t0'',
        ObjectRequest ''b1'', BlockRequest ''k1'', ObjectRequest ''t1'',
        ObjectRequest ''t3'']"
  by code_simp


lemma lossy_fetch:
  "\<exists>c \<in> set (new_calls empty_repo (snd (fetch_objects_recursive 3 lossy_env demo_remote ''c2'' None 0 None empty_repo))).
      call_failed lossy_env demo_remote c"
  by code_simp

lemma lossy_clone:
  "\<exists>c \<in> set (new_calls empty_repo (snd (clone_repository 3 lossy_env ''cof://example:7357/repo'' ''work'' None None empty_repo))).
      call_failed lossy_env demo_remote c"
  by code_simp

lemma lossy_pull:
  "\<exists>c \<in> set (new_calls empty_repo (snd (pull_from_remote 3 lossy_env ''origin'' ''main'' empty_repo))).
      call_failed lossy_env demo_remote c"
  by code_simp

lemma lossy_from_url: "from_url lossy_env ''origin'' ''cof://example:7357/repo'' = Inr demo_remote"
  by (simp add: lossy_env_def demo_env_def)

lemma lossy_get_remote: "get_remote lossy_env ''origin'' = Some demo_remote"
  by (simp add: lossy_env_def demo_env_def)

lemma demo_request_c2: "request_object demo_env demo_remote ''c2'' = Some [1]"
  by (simp add: demo_env_def demo_objects_def)

lemma demo_loads_c2:
  "loads demo_env [1] = Inr \<lparr>parent = Some ''c1'', tree_root = Some ''t1'', entries = None, block_hashes = None\<rparr>"
  by (simp add: demo_env_def demo_loads_def)

lemma demo_shallow_calls:
  "calls (snd (fetch_objects_recursive (Suc 2) demo_env demo_remote ''c2'' (Some 1) 0 None empty_repo))
     = [ObjectRequest ''c2'', ObjectRequest ''t1'', ObjectRequest ''b1'', BlockRequest ''k1'',
        ObjectRequest ''t3'']"
  by code_simp

lemma demo_body:
  "body_bytes HANDSHAKE ''s1'' ''r'' 0 1 [123, 34, 118, 101, 114, 115, 105, 111, 110, 34, 58, 34, 49, 46, 48, 34, 125]
     = [1, 0, 2, 115, 49, 0, 1, 114, 0, 0, 0, 0, 0, 0, 0, 1, 123, 34, 118, 101,
        114, 115, 105, 111, 110, 34, 58, 34, 49, 46, 48, 34, 125]"
  by (simp add: body_bytes_def header_bytes_def be16_def be32_def encode_str_def)

lemma demo_checksum:
  "checksum_of demo_digest [1, 0, 2, 115, 49, 0, 1, 114, 0, 0, 0, 0, 0, 0, 0, 1, 123, 34, 118, 101,
        114, 115, 105, 111, 110, 34, 58, 34, 49, 46, 48, 34, 125] = ''88848d85642fa31e''"
  by (simp add: checksum_of_def demo_digest_def nibble_def hex_char_def upt_rec)

lemma demo_pack:
  "pack demo_digest (NetworkPacket_init demo_digest HANDSHAKE ''s1'' ''r'' 0 1
       [123, 34, 118, 101, 114, 115, 105, 111, 110, 34, 58, 34, 49, 46, 48, 34, 125])
   = Inr [56, 56, 56, 52, 56, 100, 56, 53, 54, 52, 50, 102, 97, 51, 49, 101, 1,
      0, 2, 115, 49, 0, 1, 114, 0, 0, 0, 0, 0, 0, 0, 1, 123, 34, 118, 101,
      114, 115, 105, 111, 110, 34, 58, 34, 49, 46, 48, 34, 125]"
  by (simp add: pack_def NetworkPacket_init_def Let_def demo_body demo_checksum) (simp add: encode_str_def)

lemma tampered_checksum:
  "checksum_of demo_digest [255, 0, 2, 115, 49, 0, 1, 114, 0, 0, 0, 0, 0, 0, 0, 1, 123, 34, 118, 101,
        114, 115, 105, 111, 110, 34, 58, 34, 49, 46, 48, 34, 125] = ''16490d54403c2c1c''"
  by (simp add: checksum_of_def demo_digest_def nibble_def hex_char_def upt_rec)

lemma tampered_header:
  "parse_header [0, 2, 115, 49, 0, 1, 114, 0, 0, 0, 0, 0, 0, 0, 1, 123, 34, 118, 101,
        114, 115, 105, 111, 110, 34, 58, 34, 49, 46, 48, 34, 125]
     = Some (''s1'', ''r'', 0, 1, [123, 34, 118, 101, 114, 115, 105, 111, 110, 34, 58, 34, 49, 46, 48, 34, 125])"
  by code_simp

section \<open>Deduplication\<close>

text \<open>
  Claim C6. Within one fetch traversal every hash is requested at most once: the requests
  the traversal adds are for pairwise different hashes and none of them is for a hash
  that was in the fetched set before, also when a tree names the same blob twice. A
  second run of the fetch on the fetched set the first run left sends nothing.
\<close>

theorem fetch_requests_each_hash_once:
  assumes run: "fetch_objects_recursive fuel ev remote h depth cd pf st = (r, st')"
  shows "calls st' = calls st @ new_calls st st'
         \<and> distinct (map call_hash (new_calls st st'))
         \<and> set (map call_hash (new_calls st st')) \<inter> fetched st = {}
         \<and> (r \<noteq> OutOfFuel \<longrightarrow>
              (\<forall>fuel2. snd (fetch_objects_recursive fuel2 ev remote h depth cd pf st') = st'))"
proof -
  have e: "effect ev remote st (r, st')"
    using fetch_objects_recursive_effect[of ev remote st fuel h depth cd pf] run by simp
  have again: "snd (fetch_objects_recursive fuel2 ev remote h depth cd pf st') = st'"
    if ne: "r \<noteq> OutOfFuel" for fuel2
  proof -
    obtain n where n: "fuel = Suc n" using run ne by (cases fuel) auto
    have "h \<in> fetched st'"
      using fetch_objects_recursive_adds_hash[of h n ev remote depth cd pf st] run n by simp
    then show ?thesis by (cases fuel2) simp_all
  qed
  show ?thesis
    using effect_callsD(1,2,3)[OF e] again by blast
qed


theorem fetch_requests_each_hash_once_witness:
  "distinct (map call_hash (new_calls empty_repo (snd (fetch_objects_recursive 3 demo_env demo_remote ''c2'' None 0 None empty_repo))))
   \<and> new_calls empty_repo (snd (fetch_objects_recursive 3 demo_env demo_remote ''c2'' None 0 None empty_repo))
       = [ObjectRequest ''c2'', ObjectRequest ''c1'', ObjectRequest ''t0'',
          ObjectRequest ''b1'', BlockRequest ''k1'', ObjectRequest ''t1'', ObjectRequest ''t3'']
   \<and> calls (snd (fetch_objects_recursive 1 demo_env demo_remote ''c2'' None 0 None
               (snd (fetch_objects_recursive 3 demo_env demo_remote ''c2'' None 0 None empty_repo))))
       = calls (snd (fetch_objects_recursive 3 demo_env demo_remote ''c2'' None 0 None empty_repo))"
proof -
  have run: "fetch_objects_recursive 3 demo_env demo_remote ''c2'' None 0 None empty_repo
      = (Returned, snd (fetch_objects_recursive 3 demo_env demo_remote ''c2'' None 0 None empty_repo))"
    using demo_fetch_returns by (metis prod.collapse)
  have nc: "new_calls empty_repo (snd (fetch_objects_recursive 3 demo_env demo_remote ''c2'' None 0 None empty_repo))
       = [ObjectRequest ''c2'', ObjectRequest ''c1'', ObjectRequest ''t0'',
          ObjectRequest ''b1'', BlockRequest ''k1'', ObjectRequest ''t1'', ObjectRequest ''t3'']"
    by (simp add: new_calls_def demo_fetch_calls) (simp add: empty_repo_def)
  from fetch_requests_each_hash_once[OF run]
  have d: "distinct (map call_hash (new_calls empty_repo (snd (fetch_objects_recursive 3 demo_env demo_remote ''c2'' None 0 None empty_repo))))"
    and again: "\<forall>fuel2. snd (fetch_objects_recursive fuel2 demo_env demo_remote ''c2'' None 0 None
               (snd (fetch_objects_recursive 3 demo_env demo_remote ''c2'' None 0 None empty_repo)))
       = snd (fetch_objects_recursive 3 demo_env demo_remote ''c2'' None 0 None empty_repo)"
    by simp_all
  from again have c: "snd (fetch_objects_recursive 1 demo_env demo_remote ''c2'' None 0 None
               (snd (fetch_objects_recursive 3 demo_env demo_remote ''c2'' None 0 None empty_repo)))
       = snd (fetch_objects_recursive 3 demo_env demo_remote ''c2'' None 0 None empty_repo)"
    by (rule spec)
  show ?thesis
    by (intro conjI) (rule d, rule nc, simp only: c)
qed

section \<open>Failure policy\<close>

text \<open>
  Claim C4. If an object or block request sent during the traversal comes back with
  nothing, the fetch ends with a \<open>ClickException\<close>; \<open>clone_repository\<close> and
  \<open>pull_from_remote\<close> then return \<open>False\<close>, and the refs, \<open>HEAD\<close> and the working tree
  are as they were: no ref file is written.
\<close>

theorem failed_request_aborts_fetch:
  "(fetch_objects_recursive fuel ev remote h depth cd pf st = (r, st1)
      \<and> (\<exists>c \<in> set (new_calls st st1). call_failed ev remote c)
    \<longrightarrow> (\<exists>msg. r = Raised (ClickException msg)))
   \<and> (from_url ev ''origin'' url = Inr remote
      \<and> clone_repository fuel ev url target_dir depth pf st = (res, st2)
      \<and> (\<exists>c \<in> set (new_calls st st2). call_failed ev remote c)
    \<longrightarrow> res = Some False \<and> refs st2 = refs st \<and> HEAD st2 = HEAD st \<and> restored st2 = restored st)
   \<and> (get_remote ev remote_name = Some remote
      \<and> pull_from_remote fuel ev remote_name branch st = (res', st3)
      \<and> (\<exists>c \<in> set (new_calls st st3). call_failed ev remote c)
    \<longrightarrow> res' = Some False \<and> refs st3 = refs st \<and> HEAD st3 = HEAD st \<and> restored st3 = restored st)"
proof (intro conjI impI)
  assume a: "fetch_objects_recursive fuel ev remote h depth cd pf st = (r, st1)
      \<and> (\<exists>c \<in> set (new_calls st st1). call_failed ev remote c)"
  have "effect ev remote st (r, st1)"
    using fetch_objects_recursive_effect[of ev remote st fuel h depth cd pf] a by simp
  then show "\<exists>msg. r = Raised (ClickException msg)"
    using a effect_callsD(4) by blast
next
  assume a: "from_url ev ''origin'' url = Inr remote
      \<and> clone_repository fuel ev url target_dir depth pf st = (res, st2)
      \<and> (\<exists>c \<in> set (new_calls st st2). call_failed ev remote c)"
  let ?st0 = "st\<lparr>fetched := {}\<rparr>"
  let ?h = "the (map_of (request_refs ev remote) ''main'')"
  obtain r st1 where f: "fetch_objects_recursive fuel ev remote ?h depth 0 pf ?st0 = (r, st1)"
    by (cases "fetch_objects_recursive fuel ev remote ?h depth 0 pf ?st0")
  have e: "effect ev remote ?st0 (r, st1)"
    using fetch_objects_recursive_effect[of ev remote ?st0 fuel ?h depth 0 pf] f by simp
  note d = effect_callsD[OF e]
  have "res = Some False \<and> refs st2 = refs st \<and> HEAD st2 = HEAD st \<and> restored st2 = restored st"
  proof (cases "target_not_empty ev target_dir \<or> \<not> config_loaded ev target_dir \<or> \<not> handshake ev remote
      \<or> request_refs ev remote = [] \<or> \<not> truthy (map_of (request_refs ev remote) ''main'')")
    case True
    then have "\<exists>e. clone_body fuel ev url target_dir depth pf st = (Raised e, st)"
      using a by (auto simp: clone_body_def Let_def)
    then show ?thesis using a by (auto simp: clone_repository_def)
  next
    case False
    then have body: "clone_body fuel ev url target_dir depth pf st =
        (case (r, st1) of
           (Returned, st1) \<Rightarrow> (Returned, echo (clone_info url target_dir depth pf)
              (restore_working_tree ((write_refs (request_refs ev remote) st1)\<lparr>HEAD := Some ''ref: refs/heads/main''\<rparr>)))
         | (Raised e, st1) \<Rightarrow> (Raised e, st1)
         | (OutOfFuel, st1) \<Rightarrow> (OutOfFuel, st1))"
      using a f by (cases r) (auto simp: clone_body_def Let_def)
    show ?thesis
    proof (cases r)
      case Returned
      then have "st2 = echo (clone_info url target_dir depth pf)
              (restore_working_tree ((write_refs (request_refs ev remote) st1)\<lparr>HEAD := Some ''ref: refs/heads/main''\<rparr>))"
        using a body by (simp add: clone_repository_def)
      then have "new_calls st st2 = new_calls ?st0 st1"
        by (simp add: new_calls_def restore_working_tree_def write_refs_def)
      then show ?thesis using a d(5) Returned by auto
    next
      case (Raised e)
      then have st2: "st2 = echo (''Clone failed: '' @ str_error e) st1" and res: "res = Some False"
        using a body by (auto simp add: clone_repository_def)
      show ?thesis using st2 res d(6,7,8) by simp
    next
      case OutOfFuel
      then have "st2 = st1" using a body by (auto simp add: clone_repository_def)
      then have "new_calls st st2 = new_calls ?st0 st1" by simp
      then show ?thesis  using a d(4) OutOfFuel by auto
    qed
  qed
  then show "res = Some False" and "refs st2 = refs st" and "HEAD st2 = HEAD st" and "restored st2 = restored st"
    by simp_all
next
  assume a: "get_remote ev remote_name = Some remote
      \<and> pull_from_remote fuel ev remote_name branch st = (res', st3)
      \<and> (\<exists>c \<in> set (new_calls st st3). call_failed ev remote c)"
  let ?st0 = "st\<lparr>fetched := {}\<rparr>"
  let ?h = "the (map_of (request_refs ev remote) branch)"
  obtain r st1 where f: "fetch_objects_recursive fuel ev remote ?h None 0 None ?st0 = (r, st1)"
    by (cases "fetch_objects_recursive fuel ev remote ?h None 0 None ?st0")
  have e: "effect ev remote ?st0 (r, st1)"
    using fetch_objects_recursive_effect[of ev remote ?st0 fuel ?h None 0 None] f by simp
  note d = effect_callsD[OF e]
  have "res' = Some False \<and> refs st3 = refs st \<and> HEAD st3 = HEAD st \<and> restored st3 = restored st"
  proof (cases "\<not> handshake ev remote \<or> \<not> truthy (map_of (request_refs ev remote) branch)
       \<or> get_head_commit ev st = map_of (request_refs ev remote) branch")
    case True
    then have "\<exists>r' m. pull_body fuel ev remote_name branch st = (r', echo m st) \<or> pull_body fuel ev remote_name branch st = (r', st)"
      using a by (auto simp: pull_body_def Let_def)
    then have "new_calls st st3 = []" using a by (auto simp: pull_from_remote_def split: outcome.splits)
    then show ?thesis using a by simp
  next
    case False
    then have body: "pull_body fuel ev remote_name branch st =
        (case (r, st1) of
           (Returned, st1) \<Rightarrow> (Returned, echo (''Pulled changes from '' @ remote_name @ ''/'' @ branch)
              (restore_working_tree (st1\<lparr>refs := (refs st1)(branch \<mapsto> ?h)\<rparr>)))
         | (Raised e, st1) \<Rightarrow> (Raised e, st1)
         | (OutOfFuel, st1) \<Rightarrow> (OutOfFuel, st1))"
      using a f by (cases r) (auto simp: pull_body_def Let_def)
    show ?thesis
    proof (cases r)
      case Returned
      then have "st3 = echo (''Pulled changes from '' @ remote_name @ ''/'' @ branch)
              (restore_working_tree (st1\<lparr>refs := (refs st1)(branch \<mapsto> ?h)\<rparr>))"
        using a body by (simp add: pull_from_remote_def)
      then have "new_calls st st3 = new_calls ?st0 st1"
        by (simp add: new_calls_def restore_working_tree_def)
      then show ?thesis using a d(5) Returned by auto
    next
      case (Raised e)
      then have st3: "st3 = echo (''Pull failed: '' @ str_error e) st1" and res: "res' = Some False"
        using a body by (auto simp add: pull_from_remote_def)
      show ?thesis using st3 res d(6,7,8) by simp
    next
      case OutOfFuel
      then have "st3 = st1" using a body by (auto simp add: pull_from_remote_def)
      then have "new_calls st st3 = new_calls ?st0 st1" by simp
      then show ?thesis  using a d(4) OutOfFuel by auto
    qed
  qed
  then show "res' = Some False" and "refs st3 = refs st" and "HEAD st3 = HEAD st" and "restored st3 = restored st"
    by simp_all
qed

theorem failed_request_aborts_fetch_witness:
  "(\<exists>c \<in> set (new_calls empty_repo (snd (fetch_objects_recursive 3 lossy_env demo_remote ''c2'' None 0 None empty_repo))).
      call_failed lossy_env demo_remote c)
   \<and> (\<exists>msg. fst (fetch_objects_recursive 3 lossy_env demo_remote ''c2'' None 0 None empty_repo)
               = Raised (ClickException msg))
   \<and> from_url lossy_env ''origin'' ''cof://example:7357/repo'' = Inr demo_remote
   \<and> (\<exists>c \<in> set (new_calls empty_repo (snd (clone_repository 3 lossy_env ''cof://example:7357/repo'' ''work'' None None empty_repo))).
      call_failed lossy_env demo_remote c)
   \<and> fst (clone_repository 3 lossy_env ''cof://example:7357/repo'' ''work'' None None empty_repo) = Some False
   \<and> refs (snd (clone_repository 3 lossy_env ''cof://example:7357/repo'' ''work'' None None empty_repo)) = refs empty_repo
   \<and> get_remote lossy_env ''origin'' = Some demo_remote
   \<and> (\<exists>c \<in> set (new_calls empty_repo (snd (pull_from_remote 3 lossy_env ''origin'' ''main'' empty_repo))).
      call_failed lossy_env demo_remote c)
   \<and> fst (pull_from_remote 3 lossy_env ''origin'' ''main'' empty_repo) = Some False
   \<and> refs (snd (pull_from_remote 3 lossy_env ''origin'' ''main'' empty_repo)) = refs empty_repo"
  using failed_request_aborts_fetch[where fuel = 3 and ev = lossy_env and remote = demo_remote
      and h = "''c2''" and depth = None and cd = 0 and pf = None and st = empty_repo
      and r = "fst (fetch_objects_recursive 3 lossy_env demo_remote ''c2'' None 0 None empty_repo)"
      and ?st1.0 = "snd (fetch_objects_recursive 3 lossy_env demo_remote ''c2'' None 0 None empty_repo)"
      and url = "''cof://example:7357/repo''" and target_dir = "''work''"
      and res = "fst (clone_repository 3 lossy_env ''cof://example:7357/repo'' ''work'' None None empty_repo)"
      and ?st2.0 = "snd (clone_repository 3 lossy_env ''cof://example:7357/repo'' ''work'' None None empty_repo)"
      and remote_name = "''origin''" and branch = "''main''"
      and res' = "fst (pull_from_remote 3 lossy_env ''origin'' ''main'' empty_repo)"
      and ?st3.0 = "snd (pull_from_remote 3 lossy_env ''origin'' ''main'' empty_repo)"]
    lossy_fetch lossy_clone lossy_pull lossy_from_url lossy_get_remote
  by (simp only: prod.collapse simp_thms)

section \<open>Pull when already up to date\<close>

text \<open>
  Claim C10. If the remote is registered, the handshake succeeds, the refs of the remote
  give the branch a commit hash and that hash is the local head commit, then
  \<open>pull_from_remote\<close> returns \<open>True\<close> and the only thing it does is print
  \<open>Already up to date.\<close>: no object or block request is sent, no ref is written, the
  working tree is not restored, and the stores are left alone. A commit hash is a
  non-empty string: an empty one is rejected as a missing branch before the comparison.
\<close>

theorem pull_up_to_date_changes_nothing:
  assumes "get_remote ev remote_name = Some remote"
    and "handshake ev remote"
    and "map_of (request_refs ev remote) branch = Some remote_commit"
    and "remote_commit \<noteq> []"
    and "get_head_commit ev st = Some remote_commit"
  shows "pull_from_remote fuel ev remote_name branch st
           = (Some True, st\<lparr>echoed := echoed st @ [''Already up to date.'']\<rparr>)
         \<and> calls (snd (pull_from_remote fuel ev remote_name branch st)) = calls st
         \<and> refs (snd (pull_from_remote fuel ev remote_name branch st)) = refs st
         \<and> HEAD (snd (pull_from_remote fuel ev remote_name branch st)) = HEAD st
         \<and> restored (snd (pull_from_remote fuel ev remote_name branch st)) = restored st
         \<and> objects (snd (pull_from_remote fuel ev remote_name branch st)) = objects st
         \<and> blocks (snd (pull_from_remote fuel ev remote_name branch st)) = blocks st"
proof -
  have "pull_body fuel ev remote_name branch st = (Returned, echo ''Already up to date.'' st)"
    using assms by (simp add: pull_body_def Let_def truthy_def)
  then have "pull_from_remote fuel ev remote_name branch st
           = (Some True, st\<lparr>echoed := echoed st @ [''Already up to date.'']\<rparr>)"
    by (simp add: pull_from_remote_def echo_def)
  then show ?thesis by simp
qed

theorem pull_up_to_date_changes_nothing_witness:
  "get_remote demo_env ''origin'' = Some demo_remote
   \<and> handshake demo_env demo_remote
   \<and> map_of (request_refs demo_env demo_remote) ''main'' = Some ''c2''
   \<and> get_head_commit demo_env up_to_date_repo = Some ''c2''
   \<and> pull_from_remote 3 demo_env ''origin'' ''main'' up_to_date_repo
        = (Some True, up_to_date_repo\<lparr>echoed := echoed up_to_date_repo @ [''Already up to date.'']\<rparr>)
   \<and> calls (snd (pull_from_remote 3 demo_env ''origin'' ''main'' up_to_date_repo)) = []"
proof -
  have h1: "get_remote demo_env ''origin'' = Some demo_remote" by (simp add: demo_env_def)
  have h2: "handshake demo_env demo_remote" by (simp add: demo_env_def)
  have h3: "map_of (request_refs demo_env demo_remote) ''main'' = Some ''c2''" by (simp add: demo_env_def)
  have h4: "''c2'' \<noteq> []" by simp
  have h5: "get_head_commit demo_env up_to_date_repo = Some ''c2''"
    by (simp add: demo_env_def up_to_date_repo_def)
  have c: "calls up_to_date_repo = []" by (simp add: up_to_date_repo_def empty_repo_def)
  show ?thesis
    using pull_up_to_date_changes_nothing[OF h1 h2 h3 h4 h5, of 3] h1 h2 h3 h5 c by simp
qed

section \<open>Depth of the commit walk\<close>

text \<open>
  Claim C5. For a commit that is fetched at \<open>current_depth\<close> (its hash not yet in the
  fetched set, its object received and decoded), the walk goes on to the parent if and
  only if the parent hash is there (neither null nor empty) and \<open>depth\<close> is \<open>None\<close> or
  \<open>current_depth < depth - 1\<close>; otherwise it goes straight to the commit's tree. In
  particular with \<open>depth = 1\<close> the tip commit is requested and its tree walked, and no
  parent is visited.
\<close>

theorem parent_fetched_iff_depth_allows:
  assumes "h \<notin> fetched st"
    and "request_object ev remote h = Some data" and "data \<noteq> []"
    and "loads ev data = Inr obj"
  shows "fetch_objects_recursive (Suc fuel) ev remote h depth current_depth pf st =
     (let st2 = save_object h obj (add_fetched h (log_call (ObjectRequest h) st));
          walk_tree = (\<lambda>st3. case tree_root obj of
                                None \<Rightarrow> (Returned, st3)
                              | Some t \<Rightarrow> fetch_tree_recursive ev remote t pf [] st3)
      in if (\<exists>p. parent obj = Some p \<and> p \<noteq> [])
            \<and> (depth = None \<or> (\<exists>d. depth = Some d \<and> current_depth < d - 1))
         then (case fetch_objects_recursive fuel ev remote (the (parent obj)) depth (current_depth + 1) pf st2 of
                 (Returned, st3) \<Rightarrow> walk_tree st3
               | (Raised e, st3) \<Rightarrow> (Raised e, st3)
               | (OutOfFuel, st3) \<Rightarrow> (OutOfFuel, st3))
         else walk_tree st2)
     \<and> (depth = Some 1 \<and> current_depth = 0 \<longrightarrow>
          fetch_objects_recursive (Suc fuel) ev remote h depth current_depth pf st =
            (case tree_root obj of
               None \<Rightarrow> (Returned, save_object h obj (add_fetched h (log_call (ObjectRequest h) st)))
             | Some t \<Rightarrow> fetch_tree_recursive ev remote t pf []
                           (save_object h obj (add_fetched h (log_call (ObjectRequest h) st)))))"
proof -
  have t: "truthy (request_object ev remote h)" using assms by (simp add: truthy_def)
  have l: "loads ev (the (request_object ev remote h)) = Inr obj" using assms by simp
  have c1: "truthy (parent obj) \<longleftrightarrow> (\<exists>p. parent obj = Some p \<and> p \<noteq> [])"
    by (cases "parent obj") (simp_all add: truthy_def)
  have c2: "(depth = None \<or> current_depth < the depth - 1)
      \<longleftrightarrow> (depth = None \<or> (\<exists>d. depth = Some d \<and> current_depth < d - 1))"
    by (cases depth) simp_all
  define P where "P \<longleftrightarrow> (\<exists>p. parent obj = Some p \<and> p \<noteq> [])
            \<and> (depth = None \<or> (\<exists>d. depth = Some d \<and> current_depth < d - 1))"
  have P: "truthy (parent obj) \<and> (depth = None \<or> current_depth < the depth - 1) \<longleftrightarrow> P"
    unfolding P_def using c1 c2 by simp
  note step = fetch_objects_recursive_step[OF assms(1) t l, of fuel depth current_depth pf]
  have first: "fetch_objects_recursive (Suc fuel) ev remote h depth current_depth pf st =
     (let st2 = save_object h obj (add_fetched h (log_call (ObjectRequest h) st));
          walk_tree = (\<lambda>st3. case tree_root obj of
                                None \<Rightarrow> (Returned, st3)
                              | Some t \<Rightarrow> fetch_tree_recursive ev remote t pf [] st3)
      in if P
         then (case fetch_objects_recursive fuel ev remote (the (parent obj)) depth (current_depth + 1) pf st2 of
                 (Returned, st3) \<Rightarrow> walk_tree st3
               | (Raised e, st3) \<Rightarrow> (Raised e, st3)
               | (OutOfFuel, st3) \<Rightarrow> (OutOfFuel, st3))
         else walk_tree st2)"
    unfolding step P Let_def by (cases P) simp_all
  have second: "fetch_objects_recursive (Suc fuel) ev remote h depth current_depth pf st =
            (case tree_root obj of
               None \<Rightarrow> (Returned, save_object h obj (add_fetched h (log_call (ObjectRequest h) st)))
             | Some t \<Rightarrow> fetch_tree_recursive ev remote t pf []
                           (save_object h obj (add_fetched h (log_call (ObjectRequest h) st))))"
    if "depth = Some 1 \<and> current_depth = 0"
    unfolding step using that by simp
  show ?thesis using first[unfolded P_def] second by blast
qed

theorem parent_fetched_iff_depth_allows_witness:
  "''c2'' \<notin> fetched empty_repo
   \<and> request_object demo_env demo_remote ''c2'' = Some [1]
   \<and> loads demo_env [1] = Inr \<lparr>parent = Some ''c1'', tree_root = Some ''t1'', entries = None, block_hashes = None\<rparr>
   \<and> fetch_objects_recursive (Suc 2) demo_env demo_remote ''c2'' (Some 1) 0 None empty_repo
       = fetch_tree_recursive demo_env demo_remote ''t1'' None []
           (save_object ''c2'' \<lparr>parent = Some ''c1'', tree_root = Some ''t1'', entries = None, block_hashes = None\<rparr>
              (add_fetched ''c2'' (log_call (ObjectRequest ''c2'') empty_repo)))
   \<and> calls (snd (fetch_objects_recursive (Suc 2) demo_env demo_remote ''c2'' (Some 1) 0 None empty_repo))
       = [ObjectRequest ''c2'', ObjectRequest ''t1'', ObjectRequest ''b1'', BlockRequest ''k1'',
          ObjectRequest ''t3'']"
proof -
  have h1: "''c2'' \<notin> fetched empty_repo" by (simp add: empty_repo_def)
  have h3: "[1::8 word] \<noteq> []" by simp
  from parent_fetched_iff_depth_allows[OF h1 demo_request_c2 h3 demo_loads_c2, of 2 "Some 1" 0 None]
  have "fetch_objects_recursive (Suc 2) demo_env demo_remote ''c2'' (Some 1) 0 None empty_repo
       = fetch_tree_recursive demo_env demo_remote ''t1'' None []
           (save_object ''c2'' \<lparr>parent = Some ''c1'', tree_root = Some ''t1'', entries = None, block_hashes = None\<rparr>
              (add_fetched ''c2'' (log_call (ObjectRequest ''c2'') empty_repo)))"
    by simp
  then show ?thesis using h1 demo_request_c2 demo_loads_c2 demo_shallow_calls by simp
qed

section \<open>Blocks whose stored hash differs from the advertised one\<close>

text \<open>
  Claim C3 says that a block whose stored hash differs from the advertised hash aborts
  the fetch. The code compares the two hashes and prints a warning, nothing more. On
  the demo remote behind a store that files every block under \<open>ffff\<close>, the block
  advertised as \<open>k1\<close> is stored under \<open>ffff\<close>, the warning is printed, the traversal
  returns, and clone and pull return \<open>True\<close>.
\<close>

theorem block_hash_mismatch_does_not_abort:
  "request_block mismatch_env demo_remote ''k1'' = Some [10]
   \<and> store_block mismatch_env [10] \<noteq> ''k1''
   \<and> fst (fetch_objects_recursive 3 mismatch_env demo_remote ''c2'' None 0 None empty_repo) = Returned
   \<and> blocks (snd (fetch_objects_recursive 3 mismatch_env demo_remote ''c2'' None 0 None empty_repo)) ''ffff'' = Some [10]
   \<and> echoed (snd (fetch_objects_recursive 3 mismatch_env demo_remote ''c2'' None 0 None empty_repo))
       = [''Warning: Block hash mismatch: ffff != k1'']
   \<and> fst (clone_repository 3 mismatch_env ''cof://example:7357/repo'' ''work'' None None empty_repo) = Some True
   \<and> fst (pull_from_remote 3 mismatch_env ''origin'' ''main'' empty_repo) = Some True"
  by code_simp

text \<open>
  Claim C3 as amended. For every block that is fetched (its hash not yet in the fetched
  set, its request answered), the round returns normally: the request is logged, the
  advertised hash joins the fetched set, the bytes are stored under the hash the store
  returns, and when that hash differs from the advertised one the warning
  \<open>Warning: Block hash mismatch: <stored> != <advertised>\<close> is printed. The mismatch
  never aborts: outcome, requests, fetched set and object tier of a whole traversal are
  the same whatever hashes the store returns.
\<close>

theorem block_hash_mismatch_warns_and_continues:
  assumes "block_hash \<notin> fetched st"
    and "request_block ev remote block_hash = Some block_data" and "block_data \<noteq> []"
  shows "fetch_block ev remote block_hash st =
           (Returned,
            (if store_block ev block_data \<noteq> block_hash
             then echo (''Warning: Block hash mismatch: '' @ store_block ev block_data @ '' != '' @ block_hash)
             else (\<lambda>s. s))
              (st\<lparr>calls := calls st @ [BlockRequest block_hash],
                  fetched := insert block_hash (fetched st),
                  blocks := (blocks st)(store_block ev block_data \<mapsto> block_data)\<rparr>))
         \<and> fst (fetch_objects_recursive fuel (ev\<lparr>store_block := g\<rparr>) remote h depth cd pf st)
             = fst (fetch_objects_recursive fuel ev remote h depth cd pf st)
         \<and> calls (snd (fetch_objects_recursive fuel (ev\<lparr>store_block := g\<rparr>) remote h depth cd pf st))
             = calls (snd (fetch_objects_recursive fuel ev remote h depth cd pf st))
         \<and> fetched (snd (fetch_objects_recursive fuel (ev\<lparr>store_block := g\<rparr>) remote h depth cd pf st))
             = fetched (snd (fetch_objects_recursive fuel ev remote h depth cd pf st))
         \<and> objects (snd (fetch_objects_recursive fuel (ev\<lparr>store_block := g\<rparr>) remote h depth cd pf st))
             = objects (snd (fetch_objects_recursive fuel ev remote h depth cd pf st))"
proof -
  have one: "fetch_block ev remote block_hash st =
           (Returned,
            (if store_block ev block_data \<noteq> block_hash
             then echo (''Warning: Block hash mismatch: '' @ store_block ev block_data @ '' != '' @ block_hash)
             else (\<lambda>s. s))
              (st\<lparr>calls := calls st @ [BlockRequest block_hash],
                  fetched := insert block_hash (fetched st),
                  blocks := (blocks st)(store_block ev block_data \<mapsto> block_data)\<rparr>))"
    using assms by (simp add: fetch_block_def Let_def truthy_def log_call_def add_fetched_def)
  have "sim_results (fetch_objects_recursive fuel ev remote h depth cd pf st)
          (fetch_objects_recursive fuel (ev\<lparr>store_block := g\<rparr>) remote h depth cd pf st)"
    by (rule fetch_objects_recursive_sim[OF same_but_store_refl])
  then show ?thesis using one by (simp add: sim_results_def same_but_store_def)
qed

theorem block_hash_mismatch_warns_and_continues_witness:
  "''k1'' \<notin> fetched empty_repo
   \<and> request_block mismatch_env demo_remote ''k1'' = Some [10]
   \<and> fetch_block mismatch_env demo_remote ''k1'' empty_repo =
       (Returned, empty_repo\<lparr>calls := [BlockRequest ''k1''], fetched := {''k1''},
                    blocks := [''ffff'' \<mapsto> [10]],
                    echoed := [''Warning: Block hash mismatch: ffff != k1'']\<rparr>)
   \<and> fst (fetch_objects_recursive 3 (mismatch_env\<lparr>store_block := demo_store_block\<rparr>) demo_remote ''c2'' None 0 None empty_repo)
       = fst (fetch_objects_recursive 3 mismatch_env demo_remote ''c2'' None 0 None empty_repo)"
proof -
  have h1: "''k1'' \<notin> fetched empty_repo" by (simp add: empty_repo_def)
  have h2: "request_block mismatch_env demo_remote ''k1'' = Some [10]"
    by (simp add: mismatch_env_def demo_env_def demo_blocks_def)
  have h3: "[10::8 word] \<noteq> []" by simp
  have s: "store_block mismatch_env [10] = ''ffff''" by (simp add: mismatch_env_def)
  show ?thesis
    using block_hash_mismatch_warns_and_continues[OF h1 h2 h3, of 3 demo_store_block "''c2''" None 0 None] h1 h2
    by (simp add: s echo_def empty_repo_def)
qed

section \<open>Directory entries\<close>

text \<open>
  Claim C1 says that the fetch walks into the subtree of every directory entry.
  \<open>_fetch_tree_recursive\<close> never calls itself: it requests the hash of every entry as if
  it were a blob and looks for \<open>block_hashes\<close> in what comes back. On the demo remote
  the tree \<open>t3\<close> of the directory \<open>d\<close> is requested, and the blob \<open>b2\<close> of \<open>d/f.txt\<close>
  and its block \<open>k2\<close>, both held by the remote, are never asked for; the fetch and the
  clone report success all the same.
\<close>

theorem directory_entry_is_not_walked:
  "request_object demo_env demo_remote ''b2'' = Some [7]
   \<and> request_block demo_env demo_remote ''k2'' = Some [11]
   \<and> fst (fetch_objects_recursive 3 demo_env demo_remote ''c2'' None 0 None empty_repo) = Returned
   \<and> calls (snd (fetch_objects_recursive 3 demo_env demo_remote ''c2'' None 0 None empty_repo))
       = [ObjectRequest ''c2'', ObjectRequest ''c1'', ObjectRequest ''t0'', ObjectRequest ''b1'',
          BlockRequest ''k1'', ObjectRequest ''t1'', ObjectRequest ''t3'']
   \<and> objects (snd (fetch_objects_recursive 3 demo_env demo_remote ''c2'' None 0 None empty_repo)) ''b2'' = None
   \<and> blocks (snd (fetch_objects_recursive 3 demo_env demo_remote ''c2'' None 0 None empty_repo)) ''k2'' = None
   \<and> fst (clone_repository 3 demo_env ''cof://example:7357/repo'' ''work'' None None empty_repo) = Some True"
  by code_simp

section \<open>Packing and unpacking\<close>

text \<open>
  Claim C8 (on the codec as modelled from the spec). For every packet built from a packet
  type, session id, repository path, sequence, total and payload, unpacking what
  \<open>pack\<close> produces gives the packet back, field by field, the checksum included, and
  that checksum is 16 hex characters.
\<close>

theorem unpack_pack_roundtrip:
  assumes "pack blake3 (NetworkPacket_init blake3 ty sid rp sq tot pl) = Inr bs"
  shows "unpack blake3 bs = Inr (NetworkPacket_init blake3 ty sid rp sq tot pl)
         \<and> length (checksum (NetworkPacket_init blake3 ty sid rp sq tot pl)) = 16
         \<and> set (checksum (NetworkPacket_init blake3 ty sid rp sq tot pl)) \<subseteq> set ''0123456789abcdef''"
proof -
  let ?p = "NetworkPacket_init blake3 ty sid rp sq tot pl"
  let ?body = "body_bytes ty sid rp sq tot pl"
  let ?cs = "checksum_of blake3 ?body"
  have sel: "packet_type ?p = ty" "session_id ?p = sid" "repo_path ?p = rp" "sequence ?p = sq"
    "total_packets ?p = tot" "payload ?p = pl" "checksum ?p = ?cs"
    by (simp_all add: NetworkPacket_init_def)
  note r = pack_Inr[OF assms, unfolded sel]
  have bs: "bs = encode_str ?cs @ ?body" using r(7) .
  have len: "\<not> length bs < min_header_length"
    using length_header_bytes[of sid rp sq tot] by (simp add: bs body_bytes_def min_header_length_def)
  have t: "take 16 bs = encode_str ?cs" and d: "drop 16 bs = ?body" by (simp_all add: bs)
  have hd: "hd ?body = packet_type_byte ty" and tl: "tl ?body = header_bytes sid rp sq tot @ pl"
    by (simp_all add: body_bytes_def)
  have ph: "parse_header (header_bytes sid rp sq tot @ pl) = Some (sid, rp, sq, tot, pl)"
    using r(1-6) by (rule parse_header_header_bytes)
  have u: "unpack blake3 bs = Inr ?p"
    unfolding unpack_def Let_def t d hd tl ph using len by (simp add: NetworkPacket_init_def)
  have hex: "set ?cs \<subseteq> set ''0123456789abcdef''"
    unfolding checksum_of_def using hex_char_in_digits by (auto simp del: set_simps)
  show ?thesis using u sel(7) hex by simp
qed

theorem unpack_pack_roundtrip_witness:
  "pack demo_digest (NetworkPacket_init demo_digest HANDSHAKE ''s1'' ''r'' 0 1
       [123, 34, 118, 101, 114, 115, 105, 111, 110, 34, 58, 34, 49, 46, 48, 34, 125])
   = Inr [56, 56, 56, 52, 56, 100, 56, 53, 54, 52, 50, 102, 97, 51, 49, 101, 1,
      0, 2, 115, 49, 0, 1, 114, 0, 0, 0, 0, 0, 0, 0, 1, 123, 34, 118, 101,
      114, 115, 105, 111, 110, 34, 58, 34, 49, 46, 48, 34, 125]
   \<and> unpack demo_digest [56, 56, 56, 52, 56, 100, 56, 53, 54, 52, 50, 102, 97, 51, 49, 101, 1,
      0, 2, 115, 49, 0, 1, 114, 0, 0, 0, 0, 0, 0, 0, 1, 123, 34, 118, 101,
      114, 115, 105, 111, 110, 34, 58, 34, 49, 46, 48, 34, 125]
     = Inr \<lparr>packet_type = HANDSHAKE, session_id = ''s1'', repo_path = ''r'', sequence = 0,
            total_packets = 1,
            payload = [123, 34, 118, 101, 114, 115, 105, 111, 110, 34, 58, 34, 49, 46, 48, 34, 125],
            checksum = ''88848d85642fa31e''\<rparr>"
  using unpack_pack_roundtrip[OF demo_pack] demo_pack
  by (simp add: NetworkPacket_init_def demo_body demo_checksum)

section \<open>Unknown packet types\<close>

text \<open>
  Claim C9 (on the codec as modelled from the spec). For every input that holds a
  complete packet (it is at least as long as the minimum header and its header fields
  are all there), whose checksum is valid and whose type byte is not one of the known
  values, \<open>unpack\<close> succeeds and returns a packet of type \<open>ERROR\<close> with the fields of
  the header, the payload and the declared checksum, rather than rejecting the input.
  The example after the theorem is the packet of the round trip above with its type byte
  overwritten by \<open>0xFF\<close> and its checksum recomputed, as test_invalid_packet_type does.
\<close>

theorem unknown_packet_type_decodes_as_error:
  assumes "min_header_length \<le> length bs"
    and "encode_str (checksum_of blake3 (drop 16 bs)) = take 16 bs"
    and "packet_type_of_byte (bs ! 16) = None"
    and "parse_header (drop 17 bs) = Some (sid, rp, sq, tot, pl)"
  shows "unpack blake3 bs =
           Inr \<lparr>packet_type = ERROR, session_id = sid, repo_path = rp, sequence = sq,
                total_packets = tot, payload = pl, checksum = decode_str (take 16 bs)\<rparr>"
proof -
  have l: "16 < length bs" using assms(1) by (simp add: min_header_length_def)
  have hd: "hd (drop 16 bs) = bs ! 16" using l by (simp add: hd_drop_conv_nth)
  have "tl (drop 16 bs) = drop (Suc 16) bs" by (simp only: drop_Suc tl_drop)
  then have tl: "tl (drop 16 bs) = drop 17 bs" by simp
  show ?thesis
    unfolding unpack_def Let_def hd tl using assms by simp
qed

theorem unknown_packet_type_decodes_as_error_witness:
  "unpack demo_digest
     [49, 54, 52, 57, 48, 100, 53, 52, 52, 48, 51, 99, 50, 99, 49, 99, 255, 0,
      2, 115, 49, 0, 1, 114, 0, 0, 0, 0, 0, 0, 0, 1, 123, 34, 118, 101, 114,
      115, 105, 111, 110, 34, 58, 34, 49, 46, 48, 34, 125]
   = Inr \<lparr>packet_type = ERROR, session_id = ''s1'', repo_path = ''r'', sequence = 0,
          total_packets = 1,
          payload = [123, 34, 118, 101, 114, 115, 105, 111, 110, 34, 58, 34, 49, 46, 48, 34, 125],
          checksum = ''16490d54403c2c1c''\<rparr>"
proof -
  let ?bs = "[49, 54, 52, 57, 48, 100, 53, 52, 52, 48, 51, 99, 50, 99, 49, 99, 255, 0,
      2, 115, 49, 0, 1, 114, 0, 0, 0, 0, 0, 0, 0, 1, 123, 34, 118, 101, 114,
      115, 105, 111, 110, 34, 58, 34, 49, 46, 48, 34, 125] :: bytes"
  have h1: "min_header_length \<le> length ?bs" by (simp add: min_header_length_def)
  have h2: "encode_str (checksum_of demo_digest (drop 16 ?bs)) = take 16 ?bs"
    by (simp add: tampered_checksum) (simp add: encode_str_def)
  have h3: "packet_type_of_byte (?bs ! 16) = None"
    by (simp add: packet_type_of_byte_def packet_types_def)
  have h4: "parse_header (drop 17 ?bs)
     = Some (''s1'', ''r'', 0, 1, [123, 34, 118, 101, 114, 115, 105, 111, 110, 34, 58, 34, 49, 46, 48, 34, 125])"
    by (simp add: tampered_header)
  have d: "decode_str (take 16 ?bs) = ''16490d54403c2c1c''" by code_simp
  show ?thesis
    using unknown_packet_type_decodes_as_error[OF h1 h2 h3 h4] by (simp only: d)
qed

section \<open>Block requests at the server\<close>

text \<open>What \<open>_process_packet\<close> does with a \<open>BLOCK_REQUEST\<close> for a valid repository, whatever the stores hold.\<close>

lemma process_block_request:
  assumes "open_repository sv (repo_path packet) = Inr repository" and "is_repo repository"
    and "packet_type packet = BLOCK_REQUEST"
  shows "process_packet sv packet =
           response sv packet ERROR (encode_str (''Unknown packet type: '' @ str_packet_type sv BLOCK_REQUEST))"
  using assms by (simp add: process_packet_def)

text \<open>
  Claim C2 says that the server answers a \<open>BLOCK_REQUEST\<close> with the block's bytes, or
  with an error naming the hash when the block is missing. \<open>_process_packet\<close> has
  branches for \<open>HANDSHAKE\<close>, \<open>OBJECT_REQUEST\<close>, \<open>REF_REQUEST\<close> and \<open>PUSH_REQUEST\<close>;
  a \<open>BLOCK_REQUEST\<close> falls through to the last branch. On a repository that holds the
  block \<open>k1\<close>, the request for \<open>k1\<close> is answered with an \<open>ERROR\<close> packet that says
  the packet type is unknown, while the request for the object \<open>b1\<close> is answered with
  its bytes.
\<close>

theorem block_request_answered_as_unknown_type:
  "open_repository demo_server ''repo'' = Inr demo_repository
   \<and> is_repo demo_repository
   \<and> block_store demo_repository ''k1'' = Some [10]
   \<and> packet_type (process_packet demo_server
        (NetworkPacket_init demo_digest BLOCK_REQUEST ''s1'' ''repo'' 0 1 (encode_str ''k1''))) = ERROR
   \<and> payload (process_packet demo_server
        (NetworkPacket_init demo_digest BLOCK_REQUEST ''s1'' ''repo'' 0 1 (encode_str ''k1'')))
       = encode_str ''Unknown packet type: PacketType.BLOCK_REQUEST''
   \<and> packet_type (process_packet demo_server
        (NetworkPacket_init demo_digest OBJECT_REQUEST ''s1'' ''repo'' 0 1 (encode_str ''b1''))) = OBJECT_RESPONSE
   \<and> payload (process_packet demo_server
        (NetworkPacket_init demo_digest OBJECT_REQUEST ''s1'' ''repo'' 0 1 (encode_str ''b1''))) = [6]"
  by (simp add: process_packet_def demo_server_def demo_repository_def NetworkPacket_init_def response_def)

section \<open>The path filter\<close>

text \<open>
  Claim C7 says that whenever \<open>**\<close> is present the pattern is split at the first \<open>**\<close>.
  The code splits at every \<open>**\<close> and uses prefix and suffix only when that gives exactly
  two pieces; a pattern with two or more \<open>**\<close> goes to \<open>fnmatch\<close> whole. For the pattern
  \<open>docs/**/img/**\<close> and the path \<open>docs-old/img/x.png\<close> the code answers no (the whole
  pattern wants the path to begin with \<open>docs/\<close>), while the claim's rule answers yes:
  the path starts with \<open>docs\<close> and ends the way the suffix asks, whether or not the
  leading slash of the suffix is kept.
\<close>

theorem matches_filter_two_double_stars:
  "matches_filter fnmatchcase ''docs-old/img/x.png'' ''docs/**/img/**'' = False
   \<and> spec_matches_filter fnmatchcase ''docs-old/img/x.png'' ''docs/**/img/**'' = True
   \<and> split_stars ''docs/**/img/**'' = [''docs/'', ''/img/'', []]
   \<and> split_at_first_stars ''docs/**/img/**'' = (''docs/'', ''/img/**'')
   \<and> fnmatchcase ''docs-old/img/x.png'' ''*/img/**''"
  by code_simp

text \<open>
  Claim C7 as amended. When the pattern holds \<open>**\<close> exactly once (splitting it at \<open>**\<close>
  gives exactly two pieces), it is split there into prefix and suffix, and the path
  matches if and only if it starts with the prefix (trailing slashes stripped) and, when
  the suffix is not empty, the glob \<open>*\<close> followed by the suffix (leading slashes
  stripped) matches it; this is the rule of the specification. A pattern without \<open>**\<close>
  and a pattern with two or more \<open>**\<close> are matched whole by \<open>fnmatch\<close>.
\<close>

theorem matches_filter_splits_single_stars:
  "matches_filter fnm path filter_pattern =
     (if length (split_stars filter_pattern) = 2
      then (case split_at_first_stars filter_pattern of
              (prefix, suffix) \<Rightarrow>
                startswith path (rstrip_slash prefix)
                \<and> (suffix = [] \<or> fnm path (CHR ''*'' # lstrip_slash suffix)))
      else fnm path filter_pattern)
   \<and> (length (split_stars filter_pattern) = 2 \<longrightarrow>
        matches_filter fnm path filter_pattern = spec_matches_filter fnm path filter_pattern)
   \<and> (\<not> contains_stars filter_pattern \<longrightarrow>
        matches_filter fnm path filter_pattern = spec_matches_filter fnm path filter_pattern)"
proof -
  have rs: "rstrip_slash [] = []" by (simp add: rstrip_slash_def)
  have sw: "startswith path []" by (simp add: startswith_def)
  have two: "matches_filter fnm path filter_pattern =
       (startswith path (rstrip_slash prefix) \<and> (suffix = [] \<or> fnm path (CHR ''*'' # lstrip_slash suffix)))"
      and two_spec: "spec_matches_filter fnm path filter_pattern =
       (startswith path (rstrip_slash prefix) \<and> (suffix = [] \<or> fnm path (CHR ''*'' # lstrip_slash suffix)))"
      and two_split: "split_at_first_stars filter_pattern = (prefix, suffix)"
    if "split_stars filter_pattern = [prefix, suffix]" for prefix suffix
  proof -
    note s = split_stars_two[OF that]
    show "matches_filter fnm path filter_pattern =
       (startswith path (rstrip_slash prefix) \<and> (suffix = [] \<or> fnm path (CHR ''*'' # lstrip_slash suffix)))"
      using s(1) that rs sw by (cases "prefix = []") (auto simp: matches_filter_def)
    show "spec_matches_filter fnm path filter_pattern =
       (startswith path (rstrip_slash prefix) \<and> (suffix = [] \<or> fnm path (CHR ''*'' # lstrip_slash suffix)))"
      using s(1,2) by (simp add: spec_matches_filter_def)
    show "split_at_first_stars filter_pattern = (prefix, suffix)" by (rule s(2))
  qed
  have other: "matches_filter fnm path filter_pattern = fnm path filter_pattern"
    if "length (split_stars filter_pattern) \<noteq> 2"
    using that by (auto simp: matches_filter_def split: list.splits)
  have none: "matches_filter fnm path filter_pattern = spec_matches_filter fnm path filter_pattern"
    if "\<not> contains_stars filter_pattern"
    using that by (simp add: matches_filter_def spec_matches_filter_def)
  have first: "matches_filter fnm path filter_pattern =
     (if length (split_stars filter_pattern) = 2
      then (case split_at_first_stars filter_pattern of
              (prefix, suffix) \<Rightarrow>
                startswith path (rstrip_slash prefix)
                \<and> (suffix = [] \<or> fnm path (CHR ''*'' # lstrip_slash suffix)))
      else fnm path filter_pattern)"
  proof (cases "length (split_stars filter_pattern) = 2")
    case True
    then obtain prefix suffix where ps: "split_stars filter_pattern = [prefix, suffix]"
      by (auto simp: length_Suc_conv numeral_2_eq_2)
    show ?thesis using True two[OF ps] two_split[OF ps] by simp
  next
    case False
    then show ?thesis using other by simp
  qed
  have second: "matches_filter fnm path filter_pattern = spec_matches_filter fnm path filter_pattern"
    if "length (split_stars filter_pattern) = 2"
  proof -
    from that obtain prefix suffix where ps: "split_stars filter_pattern = [prefix, suffix]"
      by (auto simp: length_Suc_conv numeral_2_eq_2)
    show ?thesis using two[OF ps] two_spec[OF ps] by simp
  qed
  show ?thesis using first second none by blast
qed

theorem matches_filter_splits_single_stars_witness:
  "length (split_stars ''src/**/*.py'') = 2
   \<and> matches_filter fnmatchcase ''src/x/y.py'' ''src/**/*.py''
       = spec_matches_filter fnmatchcase ''src/x/y.py'' ''src/**/*.py''
   \<and> matches_filter fnmatchcase ''src/x/y.py'' ''src/**/*.py''
   \<and> \<not> contains_stars ''docs/*''
   \<and> matches_filter fnmatchcase ''docs/b.md'' ''docs/*''
       = spec_matches_filter fnmatchcase ''docs/b.md'' ''docs/*''
   \<and> matches_filter fnmatchcase ''docs/b.md'' ''docs/*''
   \<and> \<not> matches_filter fnmatchcase ''src/a.txt'' ''docs/*''"
proof -
  have h1: "length (split_stars ''src/**/*.py'') = 2" by code_simp
  have h2: "\<not> contains_stars ''docs/*''" by code_simp
  have v1: "matches_filter fnmatchcase ''src/x/y.py'' ''src/**/*.py''" by code_simp
  have v2: "matches_filter fnmatchcase ''docs/b.md'' ''docs/*''" by code_simp
  have v3: "\<not> matches_filter fnmatchcase ''src/a.txt'' ''docs/*''" by code_simp
  show ?thesis
    using matches_filter_splits_single_stars[of fnmatchcase "''src/x/y.py''" "''src/**/*.py''"]
      matches_filter_splits_single_stars[of fnmatchcase "''docs/b.md''" "''docs/*''"]
      h1 h2 v1 v2 v3
    by blast
qed

end
